theory Spec2Isabelle
  imports Main "HOL-Library.Word" "HOL-Library.Sublist"
begin

section \<open>Number formatting: ThousandsSep and ThousandsSepU\<close>

text \<open>
  Go strings are byte sequences; they are modelled as \<open>string\<close> (a list of 8-bit
  characters). \<open>strconv.FormatInt(v, 10)\<close> and \<open>strconv.FormatUint(v, 10)\<close> belong to
  the Go standard library: they give the decimal digits of the value, with a leading
  minus sign for a negative one.
\<close>

definition digits :: string where
  "digits = ''0123456789''"

function FormatUint :: "nat \<Rightarrow> string" where
  "FormatUint n = (if n < 10 then [digits ! n] else FormatUint (n div 10) @ [digits ! (n mod 10)])"
  by pat_completeness auto
termination
  by (relation "measure id") auto

declare FormatUint.simps [simp del]

definition FormatInt :: "int \<Rightarrow> string" where
  "FormatInt i = (if i < 0 then CHR ''-'' # FormatUint (nat (- i)) else FormatUint (nat i))"

text \<open>
  The loop of both functions:
  \<^verbatim>\<open>for i := len(s) - 3; i > 0; i -= 3 { s = s[:i] + "," + s[i:] }\<close>
\<close>

function commaLoop :: "string \<Rightarrow> int \<Rightarrow> string" where
  "commaLoop s i = (if 0 < i then commaLoop (take (nat i) s @ '','' @ drop (nat i) s) (i - 3) else s)"
  by pat_completeness auto
termination
  by (relation "measure (\<lambda>(s, i). nat i)") auto

declare commaLoop.simps [simp del]

text \<open>
  The parameter \<open>sep\<close> is received and never read, as in the source. An \<open>int64\<close> is a
  64-bit word read through \<open>sint\<close>, a \<open>uint64\<close> one read through \<open>unat\<close>.
\<close>

definition ThousandsSep :: "64 word \<Rightarrow> string \<Rightarrow> string" where
  "ThousandsSep v sep = (let s = FormatInt (sint v) in commaLoop s (int (length s) - 3))"

definition ThousandsSepU :: "64 word \<Rightarrow> string \<Rightarrow> string" where
  "ThousandsSepU v sep = (let s = FormatUint (unat v) in commaLoop s (int (length s) - 3))"

text \<open>
  Reference grouping, on the reversed digit string: a comma after every third character
  that still has a character behind it.
\<close>

fun rgroup :: "string \<Rightarrow> string" where
  "rgroup (a # b # c # d # xs) = a # b # c # CHR '','' # rgroup (d # xs)"
| "rgroup xs = xs"


section \<open>Byte-string primitives of the Go standard library\<close>

abbreviation LF :: char where "LF \<equiv> CHR 0x0A"
abbreviation CR :: char where "CR \<equiv> CHR 0x0D"
abbreviation SP :: char where "SP \<equiv> CHR 0x20"
abbreviation ESC :: char where "ESC \<equiv> CHR 0x1B"

text \<open>\<open>bytes.IndexByte\<close>: the index of the first occurrence, \<open>None\<close> for Go's \<open>-1\<close>.\<close>

fun IndexByte :: "string \<Rightarrow> char \<Rightarrow> nat option" where
  "IndexByte [] c = None"
| "IndexByte (b # bs) c = (if b = c then Some 0 else map_option Suc (IndexByte bs c))"

text \<open>
  \<open>bytes.Replace(s, old, new, -1)\<close> and \<open>bytes.Split(s, sep)\<close> (likewise in package
  \<open>strings\<close>) work from left to right on non-overlapping occurrences. Every call in this
  repository passes a non-empty constant for \<open>old\<close> and \<open>sep\<close>; with an empty one the
  definitions below leave the text in one piece, which is not what Go does and is never
  used.
\<close>

function Replace :: "string \<Rightarrow> string \<Rightarrow> string \<Rightarrow> string" where
  "Replace [] old new = []"
| "Replace (c # cs) old new =
     (if old \<noteq> [] \<and> prefix old (c # cs)
      then new @ Replace (drop (length old) (c # cs)) old new
      else c # Replace cs old new)"
  by pat_completeness auto
termination
  by (relation "measure (\<lambda>(s, old, new). length s)") auto

function Split :: "string \<Rightarrow> string \<Rightarrow> string list" where
  "Split [] sep = [[]]"
| "Split (c # cs) sep =
     (if sep \<noteq> [] \<and> prefix sep (c # cs)
      then [] # Split (drop (length sep) (c # cs)) sep
      else (case Split cs sep of [] \<Rightarrow> [[c]] | w # ws \<Rightarrow> (c # w) # ws))"
  by pat_completeness auto
termination
  by (relation "measure (\<lambda>(s, sep). length s)") auto

text \<open>\<open>bytes.Trim(s, cutset)\<close> for a cutset of ASCII characters.\<close>

definition Trim :: "string \<Rightarrow> string \<Rightarrow> string" where
  "Trim s cutset =
     rev (dropWhile (\<lambda>c. c \<in> set cutset) (rev (dropWhile (\<lambda>c. c \<in> set cutset) s)))"

section \<open>The terminal width\<close>

text \<open>
  \<open>GetTTYWidth\<close> opens \<open>/dev/tty\<close>, falls back to standard output when that fails, asks
  for the size of the terminal behind the file and returns 80 when the query fails. What
  the operating system answers is the environment of a call: whether \<open>/dev/tty\<close> opens,
  and the width reported for each of the two files (\<open>None\<close> when the query fails).
\<close>

record env =
  tty_opens :: bool
  tty_size :: "int option"
  stdout_size :: "int option"

definition GetTTYWidth :: "env \<Rightarrow> int" where
  "GetTTYWidth e =
     (case (if tty_opens e then tty_size e else stdout_size e) of
        None \<Rightarrow> 80
      | Some width \<Rightarrow> width)"

section \<open>Wrap\<close>

text \<open>
  Go's \<open>int\<close> is 64 bits wide here. Lengths of strings held in memory stay far below
  \<open>2 ^ 63\<close>, so sums of lengths are plain integers; the one sum that involves a number
  chosen by the caller, \<open>GetTTYWidth() - 1 + width\<close>, is taken with its wrap-around.
\<close>

definition int64 :: "int \<Rightarrow> int" where
  "int64 x = (x + 2 ^ 63) mod 2 ^ 64 - 2 ^ 63"

text \<open>
  The inner loop of \<open>wrap\<close> that discounts escape sequences from the length of a word:
  \<^verbatim>\<open>
  for len(scan) > 1 {
      i := bytes.IndexByte(scan, '\x1b')
      if i == -1 { break }
      j := bytes.IndexByte(scan[i+1:], 'm')
      if j == -1 { i++ } else { j += 2; wordLen -= j; scan = scan[i+j:] }
  }\<close>
  In the branch \<open>j == -1\<close> the increment of \<open>i\<close> is lost at the end of the iteration
  (\<open>i\<close> is declared inside the body), so the next iteration starts from the same \<open>scan\<close>:
  the loop does not end. The function is therefore partial, \<open>None\<close> meaning that the
  loop never returns.
\<close>

partial_function (option) scanLoop :: "string \<Rightarrow> int \<Rightarrow> int option" where
  "scanLoop scan wordLen =
     (if 1 < length scan then
        (case IndexByte scan ESC of
           None \<Rightarrow> Some wordLen
         | Some i \<Rightarrow>
             (case IndexByte (drop (i + 1) scan) (CHR ''m'') of
                None \<Rightarrow> scanLoop scan wordLen
              | Some j \<Rightarrow> scanLoop (drop (i + (j + 2)) scan) (wordLen - int (j + 2))))
      else Some wordLen)"

declare scanLoop.simps [code]

text \<open>
  The loop over the words of one paragraph. Its state is the output buffer, \<open>lineLen\<close>
  and \<open>start\<close>.
\<close>

fun wordLoop :: "int \<Rightarrow> string \<Rightarrow> string \<Rightarrow> string list \<Rightarrow> string \<times> int \<times> bool
    \<Rightarrow> (string \<times> int \<times> bool) option" where
  "wordLoop width indent1 indent2 [] st = Some st"
| "wordLoop width indent1 indent2 (word # ws) (out, lineLen, start) =
     (if length word = 0 then wordLoop width indent1 indent2 ws (out, lineLen, start)
      else case scanLoop word (int (length word)) of
        None \<Rightarrow> None
      | Some wordLen \<Rightarrow>
          if start then
            wordLoop width indent1 indent2 ws
              (out @ indent1 @ word, lineLen + int (length indent1) + wordLen, False)
          else if lineLen + 1 + wordLen > width then
            wordLoop width indent1 indent2 ws
              (out @ [LF] @ indent2 @ word, int (length indent2) + wordLen, start)
          else
            wordLoop width indent1 indent2 ws
              (out @ [SP] @ word, lineLen + 1 + wordLen, start))"

text \<open>The loop over the paragraphs; \<open>lineLen\<close> and \<open>start\<close> are set anew for each.\<close>

fun parLoop :: "int \<Rightarrow> string \<Rightarrow> string \<Rightarrow> string list \<Rightarrow> string \<Rightarrow> string option" where
  "parLoop width indent1 indent2 [] out = Some out"
| "parLoop width indent1 indent2 (par # pars) out =
     (case wordLoop width indent1 indent2 (Split (Replace par [LF] [SP]) [SP]) (out, 0, True) of
        None \<Rightarrow> None
      | Some (out', lineLen, start) \<Rightarrow> parLoop width indent1 indent2 pars (out' @ [LF, LF]))"

definition wrap :: "string \<Rightarrow> int \<Rightarrow> string \<Rightarrow> string \<Rightarrow> string option" where
  "wrap text width indent1 indent2 =
     (if length text = 0 then Some text
      else parLoop width indent1 indent2 (Split (Replace text [CR, LF] [LF]) [LF, LF]) [])"

text \<open>The width that \<open>Wrap\<close> hands to \<open>wrap\<close>.\<close>

definition effectiveWidth :: "env \<Rightarrow> int \<Rightarrow> int" where
  "effectiveWidth e width = (if width < 1 then int64 (GetTTYWidth e - 1 + width) else width)"

definition Wrap :: "env \<Rightarrow> string \<Rightarrow> int \<Rightarrow> string \<Rightarrow> string \<Rightarrow> string option" where
  "Wrap e text width indent1 indent2 =
     (case wrap text (effectiveWidth e width) indent1 indent2 of
        None \<Rightarrow> None
      | Some bs \<Rightarrow> Some (Trim bs [LF]))"

section \<open>Counting code points\<close>

text \<open>
  \<open>utf8.RuneCountInString\<close> of the Go standard library counts the code points of a
  string, a byte that does not start a well-formed UTF-8 sequence counting as one.
  \<open>runeSize\<close> is the number of bytes the first code point of a string takes, following
  the table of first bytes and the accepted ranges of the second byte in package
  \<open>unicode/utf8\<close>.
\<close>

definition contb :: "char \<Rightarrow> bool" where
  "contb c = (0x80 \<le> (of_char c :: nat) \<and> (of_char c :: nat) \<le> 0xBF)"

definition accept :: "nat \<Rightarrow> char \<Rightarrow> bool" where
  "accept b c =
     ((if b = 0xE0 then 0xA0 else if b = 0xF0 then 0x90 else 0x80) \<le> (of_char c :: nat)
      \<and> (of_char c :: nat) \<le> (if b = 0xED then 0x9F else if b = 0xF4 then 0x8F else 0xBF))"

fun runeSize :: "string \<Rightarrow> nat" where
  "runeSize [] = 0"
| "runeSize (c # cs) =
     (let b = (of_char c :: nat) in
      if b < 0x80 then 1
      else if b < 0xC2 \<or> 0xF4 < b then 1
      else if b < 0xE0 then
        (case cs of c1 # _ \<Rightarrow> if accept b c1 then 2 else 1 | _ \<Rightarrow> 1)
      else if b < 0xF0 then
        (case cs of c1 # c2 # _ \<Rightarrow> if accept b c1 \<and> contb c2 then 3 else 1 | _ \<Rightarrow> 1)
      else
        (case cs of c1 # c2 # c3 # _ \<Rightarrow>
           if accept b c1 \<and> contb c2 \<and> contb c3 then 4 else 1 | _ \<Rightarrow> 1))"

function RuneCountInString :: "string \<Rightarrow> nat" where
  "RuneCountInString [] = 0"
| "RuneCountInString (c # cs) = Suc (RuneCountInString (drop (runeSize (c # cs)) (c # cs)))"
  by pat_completeness auto
termination
proof (relation "measure length")
  show "wf (measure length)" by simp
next
  fix c cs
  have "0 < runeSize (c # cs)" by (auto simp: Let_def split: list.splits)
  then show "(drop (runeSize (c # cs)) (c # cs), c # cs) \<in> measure length"
    by simp
qed

section \<open>Align\<close>

text \<open>
  \<open>Alignment\<close> is an integer type with the three named values; any other value takes
  the \<open>default\<close> branch of the switch in \<open>Align\<close>, as \<open>Left\<close> does. A slice is a
  list, the nil slice being the empty list: \<open>Widths\<close> and \<open>Alignments\<close> are only read
  through \<open>len\<close> and by index, where nil and empty behave alike.
\<close>

datatype Alignment = Left | Right | Center

record AlignOptions =
  Widths :: "int list"
  Alignments :: "Alignment list"
  FirstDR :: string
  FirstLR :: string
  FirstFirstDLR :: string
  FirstDLR :: string
  FirstDL :: string
  RowFirstUD :: string
  RowSecondUD :: string
  RowUD :: string
  RowLastUD :: string
  LeaveTrailingWhitespace :: bool
  FirstNilFirstUDR :: string
  FirstNilLR :: string
  FirstNilFirstUDLR :: string
  FirstNilUDLR :: string
  FirstNilLastUDL :: string
  NilFirstUDR :: string
  NilLR :: string
  NilFirstUDLR :: string
  NilUDLR :: string
  NilLastUDL :: string
  LastUR :: string
  LastLR :: string
  LastFirstULR :: string
  LastULR :: string
  LastUL :: string
  NilBetweenEveryRow :: bool

definition emptyOptions :: AlignOptions where
  "emptyOptions = \<lparr>Widths = [], Alignments = [],
     FirstDR = [], FirstLR = [], FirstFirstDLR = [], FirstDLR = [], FirstDL = [],
     RowFirstUD = [], RowSecondUD = [], RowUD = [], RowLastUD = [],
     LeaveTrailingWhitespace = False,
     FirstNilFirstUDR = [], FirstNilLR = [], FirstNilFirstUDLR = [], FirstNilUDLR = [],
     FirstNilLastUDL = [],
     NilFirstUDR = [], NilLR = [], NilFirstUDLR = [], NilUDLR = [], NilLastUDL = [],
     LastUR = [], LastLR = [], LastFirstULR = [], LastULR = [], LastUL = [],
     NilBetweenEveryRow = False\<rparr>"

definition NewDefaultAlignOptions :: AlignOptions where
  "NewDefaultAlignOptions = emptyOptions\<lparr>RowSecondUD := '' '', RowUD := '' ''\<rparr>"

definition NewSimpleAlignOptions :: AlignOptions where
  "NewSimpleAlignOptions = emptyOptions\<lparr>
     FirstDR := ''+-'', FirstLR := ''-'', FirstFirstDLR := ''-+-'', FirstDLR := ''-+-'',
     FirstDL := ''-+'',
     RowFirstUD := ''| '', RowSecondUD := '' | '', RowUD := '' | '', RowLastUD := '' |'',
     LeaveTrailingWhitespace := True,
     FirstNilFirstUDR := ''+-'', FirstNilLR := ''-'', FirstNilFirstUDLR := ''-+-'',
     FirstNilUDLR := ''-+-'', FirstNilLastUDL := ''-+'',
     LastUR := ''+-'', LastLR := ''-'', LastFirstULR := ''-+-'', LastULR := ''-+-'',
     LastUL := ''-+''\<rparr>"

text \<open>\<open>AllEqual\<close> compares every value with the first; fewer than two values are equal.\<close>

fun allEqualLoop :: "string \<Rightarrow> string list \<Rightarrow> bool" where
  "allEqualLoop compare [] = True"
| "allEqualLoop compare (v # vs) = (if v \<noteq> compare then False else allEqualLoop compare vs)"

definition AllEqual :: "string list \<Rightarrow> bool" where
  "AllEqual values = (if length values < 2 then True else allEqualLoop (hd values) (tl values))"

type_synonym row = "string list option"

text \<open>
  The first part of the row loop of \<open>Align\<close>: when widths are configured, a cell of a
  column with a width above 0 goes through \<open>Wrap\<close> with empty prefixes, any other cell
  stays as it is. \<open>None\<close> is a call of \<open>Wrap\<close> that never returns.
\<close>

fun wrapCells :: "env \<Rightarrow> int list \<Rightarrow> nat \<Rightarrow> string list \<Rightarrow> string list option" where
  "wrapCells e ws col [] = Some []"
| "wrapCells e ws col (cell # cells) =
     (if col \<ge> length ws \<or> ws ! col \<le> 0 then
        (case wrapCells e ws (Suc col) cells of
           None \<Rightarrow> None
         | Some newRow \<Rightarrow> Some (cell # newRow))
      else
        (case Wrap e cell (ws ! col) [] [] of
           None \<Rightarrow> None
         | Some wrapped \<Rightarrow>
             (case wrapCells e ws (Suc col) cells of
                None \<Rightarrow> None
              | Some newRow \<Rightarrow> Some (wrapped # newRow))))"

text \<open>
  The second part: every cell is split into its lines (\<open>work\<close>), \<open>maxCells\<close> is the
  largest number of lines, and the row becomes \<open>maxCells\<close> physical rows, a cell with
  fewer lines giving the empty string.
\<close>

definition splitCells :: "string list \<Rightarrow> string list list" where
  "splitCells row = map (\<lambda>cell. Split (Replace cell [CR, LF] [LF]) [LF]) row"

fun maxCellsLoop :: "string list list \<Rightarrow> nat \<Rightarrow> nat" where
  "maxCellsLoop [] maxCells = maxCells"
| "maxCellsLoop (cells # work) maxCells =
     maxCellsLoop work (if length cells > maxCells then length cells else maxCells)"

definition physicalRow :: "string list list \<Rightarrow> nat \<Rightarrow> string list" where
  "physicalRow work c =
     map (\<lambda>col. if c < length (work ! col) then work ! col ! c else []) [0..<length work]"

definition expandRow :: "string list \<Rightarrow> string list list" where
  "expandRow row =
     (let work = splitCells row; maxCells = maxCellsLoop work 0
      in map (physicalRow work) [0..<maxCells])"

text \<open>
  The row loop builds \<open>newData\<close>. A nil row is kept unless NilBetweenEveryRow is set;
  ahead of the physical rows of a data row a nil row is added when NilBetweenEveryRow is
  set and \<open>newData\<close> is not empty.
\<close>

fun rowLoop :: "env \<Rightarrow> AlignOptions \<Rightarrow> row list \<Rightarrow> row list \<Rightarrow> row list option" where
  "rowLoop e opts [] newData = Some newData"
| "rowLoop e opts (None # rows) newData =
     rowLoop e opts rows (if \<not> NilBetweenEveryRow opts then newData @ [None] else newData)"
| "rowLoop e opts (Some row # rows) newData =
     (case wrapCells e (Widths opts) 0 row of
        None \<Rightarrow> None
      | Some row' \<Rightarrow>
          rowLoop e opts rows
            ((if NilBetweenEveryRow opts \<and> length newData \<noteq> 0 then newData @ [None]
              else newData) @ map Some (expandRow row')))"

text \<open>
  The widths of the columns: for every data row the list of widths is first extended to
  the length of the row, the new entries being \<open>len\<close> of the cells (their bytes), and
  every entry is then raised to the number of code points of the cell of the row in
  that column. Widths are lengths and counts, hence natural numbers; the loops that pad
  run \<open>widths[c] - n\<close> times when that is above 0 and not at all otherwise, which is
  subtraction on natural numbers.
\<close>

function extendWidths :: "string list \<Rightarrow> nat list \<Rightarrow> nat list" where
  "extendWidths row widths =
     (if length row > length widths
      then extendWidths row (widths @ [length (row ! length widths)])
      else widths)"
  by pat_completeness auto
termination
  by (relation "measure (\<lambda>(row, widths). length row - length widths)") auto

declare extendWidths.simps [simp del]

fun maxLoop :: "nat \<Rightarrow> string list \<Rightarrow> nat list \<Rightarrow> nat list" where
  "maxLoop c [] widths = widths"
| "maxLoop c (v # vs) widths =
     maxLoop (Suc c) vs
       (if RuneCountInString v > widths ! c then widths[c := RuneCountInString v] else widths)"

fun widthLoop :: "row list \<Rightarrow> nat list \<Rightarrow> nat list" where
  "widthLoop [] widths = widths"
| "widthLoop (None # rows) widths = widthLoop rows widths"
| "widthLoop (Some row # rows) widths = widthLoop rows (maxLoop 0 row (extendWidths row widths))"

text \<open>Alignments missing for a column are \<open>Left\<close>.\<close>

definition padAlignments :: "Alignment list \<Rightarrow> nat list \<Rightarrow> Alignment list" where
  "padAlignments alignments widths =
     (if length alignments < length widths
      then alignments @ replicate (length widths - length alignments) Left
      else alignments)"

text \<open>
  A border line: the left glyph, for every column its junction (none for column 0, the
  first junction for column 1, the other junction further on) and the fill glyph once
  per unit of width, then the right glyph.
\<close>

fun borderLoop :: "string \<Rightarrow> string \<Rightarrow> string \<Rightarrow> nat \<Rightarrow> nat list \<Rightarrow> string" where
  "borderLoop firstJ otherJ fill col [] = []"
| "borderLoop firstJ otherJ fill col (width # widths) =
     (if col = 1 then firstJ else if col \<noteq> 0 then otherJ else [])
     @ concat (replicate width fill)
     @ borderLoop firstJ otherJ fill (Suc col) widths"

definition border :: "string \<Rightarrow> string \<Rightarrow> string \<Rightarrow> string \<Rightarrow> string \<Rightarrow> nat list \<Rightarrow> string" where
  "border left firstJ otherJ fill right widths =
     left @ borderLoop firstJ otherJ fill 0 widths @ right"

text \<open>
  A data row: the leading connector, for every cell of the row the connector of its
  column and the cell padded by the \<open>switch\<close> on its alignment, then the trailing
  connector and the line feed. \<open>n\<close> is the number of cells of the row. The indices
  \<open>widths ! c\<close> and \<open>alignments ! c\<close> are in range for every cell of every row of the
  grid the widths come from (\<open>row_within_widths\<close>, \<open>length_padAlignments\<close> below).
\<close>

definition cellField :: "AlignOptions \<Rightarrow> nat list \<Rightarrow> Alignment list \<Rightarrow> nat \<Rightarrow> nat \<Rightarrow> string \<Rightarrow> string" where
  "cellField opts widths alignments n c v =
     (case alignments ! c of
        Right \<Rightarrow> replicate (widths ! c - RuneCountInString v) SP @ v
      | Center \<Rightarrow>
          replicate ((widths ! c - RuneCountInString v) div 2) SP @ v
          @ (if LeaveTrailingWhitespace opts \<or> c < n - 1
             then replicate
                    (widths ! c - ((widths ! c - RuneCountInString v) div 2 + RuneCountInString v)) SP
             else [])
      | Left \<Rightarrow>
          v @ (if LeaveTrailingWhitespace opts \<or> c < n - 1
               then replicate (widths ! c - RuneCountInString v) SP
               else []))"

fun cellLoop :: "AlignOptions \<Rightarrow> nat list \<Rightarrow> Alignment list \<Rightarrow> nat \<Rightarrow> nat \<Rightarrow> string list \<Rightarrow> string" where
  "cellLoop opts widths alignments n c [] = []"
| "cellLoop opts widths alignments n c (v # vs) =
     (if c = 1 then RowSecondUD opts else if c \<noteq> 0 then RowUD opts else [])
     @ cellField opts widths alignments n c v
     @ cellLoop opts widths alignments n (Suc c) vs"

definition rowLine :: "AlignOptions \<Rightarrow> nat list \<Rightarrow> Alignment list \<Rightarrow> string list \<Rightarrow> string" where
  "rowLine opts widths alignments row =
     RowFirstUD opts @ cellLoop opts widths alignments (length row) 0 row @ RowLastUD opts @ [LF]"

text \<open>
  The loop that writes the rows. The first nil row is drawn with the FirstNil glyphs,
  every later one with the Nil glyphs, each only when one of its five glyphs is not
  empty; the line feed of a nil row is written in any case.
\<close>

fun emitLoop :: "AlignOptions \<Rightarrow> nat list \<Rightarrow> Alignment list \<Rightarrow> bool \<Rightarrow> row list \<Rightarrow> string" where
  "emitLoop opts widths alignments firstNil [] = []"
| "emitLoop opts widths alignments firstNil (None # rows) =
     (if firstNil then
        (if \<not> AllEqual [[], FirstNilFirstUDR opts, FirstNilFirstUDLR opts, FirstNilUDLR opts,
               FirstNilLR opts, FirstNilLastUDL opts]
         then border (FirstNilFirstUDR opts) (FirstNilFirstUDLR opts) (FirstNilUDLR opts)
                (FirstNilLR opts) (FirstNilLastUDL opts) widths
         else [])
        @ [LF] @ emitLoop opts widths alignments False rows
      else
        (if \<not> AllEqual [[], NilFirstUDR opts, NilFirstUDLR opts, NilUDLR opts,
               NilLR opts, NilLastUDL opts]
         then border (NilFirstUDR opts) (NilFirstUDLR opts) (NilUDLR opts)
                (NilLR opts) (NilLastUDL opts) widths
         else [])
        @ [LF] @ emitLoop opts widths alignments firstNil rows)"
| "emitLoop opts widths alignments firstNil (Some row # rows) =
     rowLine opts widths alignments row @ emitLoop opts widths alignments firstNil rows"

text \<open>
  \<open>render\<close> is \<open>Align\<close> from the computation of the widths on. \<open>data[0]\<close> is read for
  the capacity of the widths: with no row left in the expanded grid this is an index out
  of range, and \<open>Align\<close> panics. (The capacity of the output buffer is an estimate and
  has no part in the result.)
\<close>

datatype error = IndexOutOfRange

definition render :: "AlignOptions \<Rightarrow> row list \<Rightarrow> error + string" where
  "render opts data =
     (if length data = 0 then Inl IndexOutOfRange
      else
        let widths = widthLoop data [];
            alignments = padAlignments (Alignments opts) widths
        in Inr ((if \<not> AllEqual [[], FirstDR opts, FirstFirstDLR opts, FirstDLR opts,
                       FirstLR opts, FirstDL opts]
                 then border (FirstDR opts) (FirstFirstDLR opts) (FirstDLR opts)
                        (FirstLR opts) (FirstDL opts) widths @ [LF]
                 else [])
                @ emitLoop opts widths alignments True data
                @ (if \<not> AllEqual [[], LastUR opts, LastFirstULR opts, LastULR opts,
                         LastLR opts, LastUL opts]
                   then border (LastUR opts) (LastFirstULR opts) (LastULR opts)
                          (LastLR opts) (LastUL opts) widths @ [LF]
                   else [])))"

text \<open>
  \<open>Align\<close>: the empty string for a grid that is nil or empty, the default options for
  nil options. The result is \<open>None\<close> when a call of \<open>Wrap\<close> never returns, and
  otherwise the string or the panic of \<open>render\<close>.
\<close>

definition Align :: "env \<Rightarrow> row list \<Rightarrow> AlignOptions option \<Rightarrow> (error + string) option" where
  "Align e data opts =
     (if length data = 0 then Some (Inr [])
      else
        let opts = (case opts of None \<Rightarrow> NewDefaultAlignOptions | Some given \<Rightarrow> given)
        in case rowLoop e opts data [] of
             None \<Rightarrow> None
           | Some newData \<Rightarrow> Some (render opts newData))"

section \<open>Reference notions for the properties\<close>

text \<open>
  An escape sequence is a run of bytes from ESC to the next \<open>m\<close>. \<open>stripANSI\<close> deletes
  the escape sequences of a string from left to right; an ESC with no \<open>m\<close> behind it is
  no escape sequence and stays. The visible length of a word is the length of what is
  left. \<open>escClosed\<close> holds when every ESC of a string has an \<open>m\<close> somewhere behind it.
\<close>

function stripANSI :: "string \<Rightarrow> string" where
  "stripANSI [] = []"
| "stripANSI (c # cs) =
     (if c = ESC \<and> CHR ''m'' \<in> set cs
      then stripANSI (tl (dropWhile (\<lambda>x. x \<noteq> CHR ''m'') cs))
      else c # stripANSI cs)"
  by pat_completeness auto
termination
proof (relation "measure length")
  show "wf (measure length)" by simp
next
  fix c :: char and cs :: string
  have "length (tl (dropWhile (\<lambda>x. x \<noteq> CHR ''m'') cs)) \<le> length cs"
    using length_dropWhile_le [of "\<lambda>x. x \<noteq> CHR ''m''" cs] by simp
  then show "(tl (dropWhile (\<lambda>x. x \<noteq> CHR ''m'') cs), c # cs) \<in> measure length"
    by simp
next
  fix c :: char and cs :: string
  show "(cs, c # cs) \<in> measure length" by simp
qed

fun escClosed :: "string \<Rightarrow> bool" where
  "escClosed [] = True"
| "escClosed (c # cs) = ((c = ESC \<longrightarrow> CHR ''m'' \<in> set cs) \<and> escClosed cs)"

text \<open>
  The data rows of a grid are its rows other than nil. \<open>between\<close> lays out the physical
  rows of a sequence of data rows with one separator marker ahead of every data row but
  the first.
\<close>

fun dataRows :: "string list option list \<Rightarrow> string list list" where
  "dataRows [] = []"
| "dataRows (None # rows) = dataRows rows"
| "dataRows (Some row # rows) = row # dataRows rows"

fun between :: "string list list list \<Rightarrow> string list option list" where
  "between [] = []"
| "between (r # rs) = map Some r @ concat (map (\<lambda>r'. None # map Some r') rs)"

text \<open>
  The cells of column \<open>c\<close> of a grid, from top to bottom: a data row with \<open>c\<close> cells or
  fewer has none. \<open>maxl\<close> is the largest number of a list, 0 for the empty list.
\<close>

definition column :: "string list option list \<Rightarrow> nat \<Rightarrow> string list" where
  "column rows c = map (\<lambda>row. row ! c) (filter (\<lambda>row. c < length row) (dataRows rows))"

definition maxl :: "nat list \<Rightarrow> nat" where
  "maxl xs = foldr max xs 0"

text \<open>
  The paragraphs of a text and the words of a paragraph, as \<open>wrap\<close> cuts them, empty
  pieces between adjacent spaces left out. \<open>escapesClosed\<close> holds for a text when in
  every word every ESC has an \<open>m\<close> behind it.
\<close>

definition paragraphs :: "string \<Rightarrow> string list" where
  "paragraphs text = Split (Replace text [CR, LF] [LF]) [LF, LF]"

definition wordsOf :: "string \<Rightarrow> string list" where
  "wordsOf par = filter (\<lambda>w. w \<noteq> []) (Split (Replace par [LF] [SP]) [SP])"

definition escapesClosed :: "string \<Rightarrow> bool" where
  "escapesClosed text = list_all (\<lambda>par. list_all escClosed (wordsOf par)) (paragraphs text)"

text \<open>
  Greedy fill, in the words of the specification. The lines of a paragraph are lists of
  words. \<open>greedyLines\<close> takes the length of the line being filled and the words still to
  come; it gives the words that go on that line yet, followed by the further lines: a
  word starts a new line when the length of the line, one space and the visible length of
  the word together exceed the width, and a new line has the length of the continuation
  prefix and of its first word. The first word of a paragraph stands behind the
  first-line prefix. \<open>layout\<close> writes the lines: the words of a line with single spaces
  between them, the first-line prefix ahead of the first line and a line feed and the
  continuation prefix ahead of every other line. \<open>wrapped\<close> is every paragraph laid out
  and closed by two line feeds.
\<close>

fun addToFirst :: "string \<Rightarrow> string list list \<Rightarrow> string list list" where
  "addToFirst w [] = [[w]]"
| "addToFirst w (l # ls) = (w # l) # ls"

fun greedyLines :: "int \<Rightarrow> string \<Rightarrow> int \<Rightarrow> string list \<Rightarrow> string list list" where
  "greedyLines width indent2 lineLen [] = [[]]"
| "greedyLines width indent2 lineLen (w # ws) =
     (if lineLen + 1 + int (length (stripANSI w)) > width
      then [] # addToFirst w
             (greedyLines width indent2 (int (length indent2) + int (length (stripANSI w))) ws)
      else addToFirst w
             (greedyLines width indent2 (lineLen + 1 + int (length (stripANSI w))) ws))"

fun paragraphLines :: "int \<Rightarrow> string \<Rightarrow> string \<Rightarrow> string list \<Rightarrow> string list list" where
  "paragraphLines width indent1 indent2 [] = []"
| "paragraphLines width indent1 indent2 (w # ws) =
     addToFirst w
       (greedyLines width indent2 (int (length indent1) + int (length (stripANSI w))) ws)"

definition joinWords :: "string list \<Rightarrow> string" where
  "joinWords ws = (case ws of [] \<Rightarrow> [] | w # ws' \<Rightarrow> w @ concat (map (\<lambda>x. SP # x) ws'))"

definition layout :: "string \<Rightarrow> string \<Rightarrow> string list list \<Rightarrow> string" where
  "layout indent1 indent2 ls =
     (case ls of
        [] \<Rightarrow> []
      | l # ls' \<Rightarrow>
          indent1 @ joinWords l @ concat (map (\<lambda>l'. LF # indent2 @ joinWords l') ls'))"

definition wrapped :: "int \<Rightarrow> string \<Rightarrow> string \<Rightarrow> string \<Rightarrow> string" where
  "wrapped width indent1 indent2 text =
     concat (map (\<lambda>par. layout indent1 indent2
                          (paragraphLines width indent1 indent2 (wordsOf par)) @ [LF, LF])
                 (paragraphs text))"

section \<open>Properties of the number formatting\<close>

subsection \<open>The comma loop groups by three from the right\<close>

lemma digit_not_comma: "n < 10 \<Longrightarrow> digits ! n \<noteq> CHR '',''"
  by (simp add: digits_def nth_Cons')

lemma FormatUint_no_comma: "CHR '','' \<notin> set (FormatUint n)"
proof (induction n rule: FormatUint.induct)
  case (1 n)
  show ?case
  proof (cases "n < 10")
    case True
    then show ?thesis using digit_not_comma [of n] by (simp add: FormatUint.simps [of n])
  next
    case False
    have "n mod 10 < 10" by simp
    then have "digits ! (n mod 10) \<noteq> CHR '',''" by (rule digit_not_comma)
    with False 1 show ?thesis by (simp add: FormatUint.simps [of n])
  qed
qed

lemma FormatInt_no_comma: "CHR '','' \<notin> set (FormatInt i)"
  by (simp add: FormatInt_def FormatUint_no_comma)

lemma rgroup_short: "length xs \<le> 3 \<Longrightarrow> rgroup xs = xs"
  by (induction xs rule: rgroup.induct) auto

lemma commaLoop_rgroup:
  "length P = nat (i + 3) \<Longrightarrow> commaLoop (P @ T) i = rev (rgroup (rev P)) @ T"
proof (induction "P @ T" i arbitrary: P T rule: commaLoop.induct)
  case (1 i)
  show ?case
  proof (cases "0 < i")
    case False
    with 1(2) have "length (rev P) \<le> 3" by simp
    then have "rgroup (rev P) = rev P" by (rule rgroup_short)
    with False show ?thesis by (simp add: commaLoop.simps [of "P @ T" i])
  next
    case True
    define P1 where "P1 = take (nat i) P"
    define R where "R = drop (nat i) P"
    have P: "P = P1 @ R" by (simp add: P1_def R_def)
    have lR: "length R = 3" using 1(2) True by (simp add: R_def)
    have lP1: "length P1 = nat i" using 1(2) True by (simp add: P1_def)
    obtain x y z where R: "R = [x, y, z]"
      using lR by (cases R; cases "tl R"; cases "tl (tl R)"; cases "tl (tl (tl R))") auto
    have ne: "P1 \<noteq> []" using lP1 True by auto
    then obtain d ds where rP1: "rev P1 = d # ds" by (cases "rev P1") auto
    have step: "take (nat i) (P @ T) @ '','' @ drop (nat i) (P @ T) = P1 @ ('','' @ R @ T)"
      using lP1 by (simp add: P)
    have "length P1 = nat (i - 3 + 3)" using lP1 by simp
    from 1(1) [OF True step this]
    have IH: "commaLoop (P1 @ ('','' @ R @ T)) (i - 3) = rev (rgroup (rev P1)) @ '','' @ R @ T" .
    have "rev (rgroup (rev P)) = rev (rgroup (rev P1)) @ '','' @ R"
      by (simp add: P R rP1)
    with IH step True show ?thesis
      by (simp add: commaLoop.simps [of "P @ T" i])
  qed
qed

lemma commaLoop_whole: "commaLoop s (int (length s) - 3) = rev (rgroup (rev s))"
  using commaLoop_rgroup [of s "int (length s) - 3" "[]"] by simp

lemma filter_rgroup:
  "filter (\<lambda>c. c \<noteq> CHR '','') (rgroup xs) = filter (\<lambda>c. c \<noteq> CHR '','') xs"
  by (induction xs rule: rgroup.induct) auto

lemma rgroup_comma_pos:
  "CHR '','' \<notin> set xs \<Longrightarrow> q < length (rgroup xs) \<Longrightarrow> (rgroup xs ! q = CHR '','') = (q mod 4 = 3)"
proof (induction xs arbitrary: q rule: rgroup.induct)
  case (1 a b c d xs)
  show ?case
  proof (cases "q < 4")
    case True
    then consider "q = 0" | "q = 1" | "q = 2" | "q = 3" by linarith
    then show ?thesis using 1(2) by cases auto
  next
    case False
    then obtain r where q: "q = r + 4" by (metis add.commute le_Suc_ex not_less)
    have "r < length (rgroup (d # xs))" using 1(3) q by simp
    moreover have "CHR '','' \<notin> set (d # xs)" using 1(2) by simp
    ultimately have "(rgroup (d # xs) ! r = CHR '','') = (r mod 4 = 3)" by (rule 1(1)[rotated])
    then show ?thesis by (simp add: q)
  qed
qed (auto simp: nth_Cons' less_Suc_eq  split: if_splits)

lemma length_rgroup: "length (rgroup xs) = length xs + (length xs - 1) div 3"
  by (induction xs rule: rgroup.induct) auto

text \<open>
  Claim C10. ThousandsSep and ThousandsSepU ignore their \<open>sep\<close> argument: the result is
  the same for any two separators; deleting the commas from the result gives back the
  decimal digits of the value, so that every inserted character is the literal comma; and
  counted from the right, the commas sit exactly at the positions 3, 7, 11, ...
\<close>

theorem ThousandsSep_ignores_sep:
  "ThousandsSep v sep1 = ThousandsSep v sep2
   \<and> ThousandsSepU u sep1 = ThousandsSepU u sep2
   \<and> filter (\<lambda>c. c \<noteq> CHR '','') (ThousandsSep v sep1) = FormatInt (sint v)
   \<and> filter (\<lambda>c. c \<noteq> CHR '','') (ThousandsSepU u sep1) = FormatUint (unat u)
   \<and> (\<forall>q < length (ThousandsSep v sep1).
         (rev (ThousandsSep v sep1) ! q = CHR '','') = (q mod 4 = 3))
   \<and> (\<forall>q < length (ThousandsSepU u sep1).
         (rev (ThousandsSepU u sep1) ! q = CHR '','') = (q mod 4 = 3))"
proof -
  have a: "ThousandsSep v sep1 = rev (rgroup (rev (FormatInt (sint v))))"
    by (simp add: ThousandsSep_def Let_def commaLoop_whole)
  have b: "ThousandsSepU u sep1 = rev (rgroup (rev (FormatUint (unat u))))"
    by (simp add: ThousandsSepU_def Let_def commaLoop_whole)
  have c: "ThousandsSep v sep1 = ThousandsSep v sep2"
    by (simp add: ThousandsSep_def)
  have d: "ThousandsSepU u sep1 = ThousandsSepU u sep2"
    by (simp add: ThousandsSepU_def)
  have e: "filter (\<lambda>c. c \<noteq> CHR '','') (ThousandsSep v sep1) = FormatInt (sint v)"
  proof -
    have "filter (\<lambda>c. c \<noteq> CHR '','') (rev (FormatInt (sint v))) = rev (FormatInt (sint v))"
      using FormatInt_no_comma [of "sint v"] by (auto simp add: filter_id_conv)
    then show ?thesis
      by (simp add: a filter_rgroup flip: rev_filter)
  qed
  have f: "filter (\<lambda>c. c \<noteq> CHR '','') (ThousandsSepU u sep1) = FormatUint (unat u)"
  proof -
    have "filter (\<lambda>c. c \<noteq> CHR '','') (rev (FormatUint (unat u))) = rev (FormatUint (unat u))"
      using FormatUint_no_comma [of "unat u"] by (auto simp add: filter_id_conv)
    then show ?thesis
      by (simp add: b filter_rgroup flip: rev_filter)
  qed
  have g: "\<forall>q < length (ThousandsSep v sep1).
      (rev (ThousandsSep v sep1) ! q = CHR '','') = (q mod 4 = 3)"
    using rgroup_comma_pos [of "rev (FormatInt (sint v))"] FormatInt_no_comma [of "sint v"]
    by (simp add: a)
  have h: "\<forall>q < length (ThousandsSepU u sep1).
      (rev (ThousandsSepU u sep1) ! q = CHR '','') = (q mod 4 = 3)"
    using rgroup_comma_pos [of "rev (FormatUint (unat u))"] FormatUint_no_comma [of "unat u"]
    by (simp add: b)
  from c d e f g h show ?thesis by blast
qed

theorem ThousandsSep_ignores_sep_witness:
  "ThousandsSep 1234567 ''.'' = ThousandsSep 1234567 ''_''
   \<and> ThousandsSep 1234567 ''.'' = ''1,234,567''
   \<and> (3::nat) < length (ThousandsSep 1234567 ''.'')
   \<and> rev (ThousandsSep 1234567 ''.'') ! 3 = CHR '',''"
proof -
  have s: "sint (1234567 :: 64 word) = 1234567" by simp
  have v: "ThousandsSep 1234567 ''.'' = ''1,234,567''"
    unfolding ThousandsSep_def s
    by (simp add: FormatInt_def FormatUint.simps digits_def commaLoop.simps)
  from ThousandsSep_ignores_sep [of 1234567 "''.''" "''_''" 0]
  have "ThousandsSep 1234567 ''.'' = ThousandsSep 1234567 ''_''"
    and "\<forall>q < length (ThousandsSep 1234567 ''.'').
      (rev (ThousandsSep 1234567 ''.'') ! q = CHR '','') = (q mod 4 = 3)"
    by blast+
  moreover have "(3::nat) < length (ThousandsSep 1234567 ''.'')" by (simp add: v)
  ultimately show ?thesis using v by simp
qed

section \<open>Properties of Wrap\<close>

subsection \<open>The scan for escape sequences\<close>

lemma int64_id: "- (2 ^ 63) \<le> x \<Longrightarrow> x < 2 ^ 63 \<Longrightarrow> int64 x = x"
  by (simp add: int64_def)

lemma IndexByte_None: "(IndexByte s c = None) = (c \<notin> set s)"
  by (induction s) auto

lemma IndexByte_Some:
  "IndexByte s c = Some i \<Longrightarrow> i < length s \<and> s ! i = c \<and> c \<notin> set (take i s)"
proof (induction s arbitrary: i)
  case Nil
  then show ?case by simp
next
  case (Cons b bs)
  show ?case
  proof (cases "b = c")
    case True
    with Cons.prems show ?thesis by simp
  next
    case False
    with Cons.prems obtain k where k: "IndexByte bs c = Some k" "i = Suc k" by auto
    from Cons.IH [OF k(1)] False show ?thesis by (simp add: k(2))
  qed
qed

lemma IndexByte_split:
  assumes "IndexByte s c = Some i"
  shows "s = take i s @ c # drop (Suc i) s"
  using IndexByte_Some [OF assms] id_take_nth_drop [of i s] by auto

lemma IndexByte_dropWhile:
  "IndexByte s c = Some i \<Longrightarrow> dropWhile (\<lambda>x. x \<noteq> c) s = c # drop (Suc i) s"
proof (induction s arbitrary: i)
  case Nil
  then show ?case by simp
next
  case (Cons b bs)
  then show ?case by (cases "b = c") auto
qed

lemma stripANSI_no_esc: "ESC \<notin> set s \<Longrightarrow> stripANSI s = s"
  by (induction s) auto

lemma stripANSI_append_no_esc: "ESC \<notin> set a \<Longrightarrow> stripANSI (a @ s) = a @ stripANSI s"
  by (induction a) auto

lemma escClosed_append: "escClosed (a @ b) \<Longrightarrow> escClosed b"
  by (induction a) auto

lemma escClosed_drop: "escClosed s \<Longrightarrow> escClosed (drop n s)"
  using escClosed_append [of "take n s" "drop n s"] by simp

lemma escClosed_single: "escClosed [c] = (c \<noteq> ESC)"
  by simp

lemma scanLoop_closed:
  "escClosed scan \<Longrightarrow>
   scanLoop scan n = Some (n - int (length scan) + int (length (stripANSI scan)))"
proof (induction "length scan" arbitrary: scan n rule: less_induct)
  case less
  show ?case
  proof (cases "1 < length scan")
    case False
    then have "scan = [] \<or> (\<exists>c. scan = [c])"
      by (cases scan) auto
    with less.prems have "stripANSI scan = scan" by auto
    with False show ?thesis by (subst scanLoop.simps) simp
  next
    case long: True
    show ?thesis
    proof (cases "IndexByte scan ESC")
      case None
      then have "stripANSI scan = scan" by (simp add: IndexByte_None stripANSI_no_esc)
      with None long show ?thesis by (subst scanLoop.simps) simp
    next
      case (Some i)
      define a where "a = take i scan"
      define rest where "rest = drop (Suc i) scan"
      have scan: "scan = a @ ESC # rest"
        using IndexByte_split [OF Some] by (simp add: a_def rest_def)
      have a: "ESC \<notin> set a" "length a = i"
        using IndexByte_Some [OF Some] by (simp_all add: a_def)
      have "escClosed (ESC # rest)" using less.prems scan escClosed_append by metis
      then have m: "CHR ''m'' \<in> set rest" and cl: "escClosed rest" by simp_all
      then obtain j where j: "IndexByte rest (CHR ''m'') = Some j"
        using IndexByte_None [of rest "CHR ''m''"] by (cases "IndexByte rest (CHR ''m'')") auto
      define rest' where "rest' = drop (Suc j) rest"
      have jl: "j < length rest" using IndexByte_Some [OF j] by simp
      have dw: "dropWhile (\<lambda>x. x \<noteq> CHR ''m'') rest = CHR ''m'' # rest'"
        using IndexByte_dropWhile [OF j] by (simp add: rest'_def)
      have strip: "stripANSI scan = a @ stripANSI rest'"
        using a(1) m dw by (simp add: scan stripANSI_append_no_esc)
      have d1: "drop (i + 1) scan = rest" by (simp add: rest_def)
      have long1: "(1 < length scan) = True" using long by simp
      have d2: "drop (i + (j + 2)) scan = rest'"
        by (simp add: rest'_def rest_def add.commute)
      have len: "length scan = i + 1 + (j + 1) + length rest'"
        using jl a(2) by (simp add: scan rest'_def)
      have "length rest' < length scan" using len by simp
      moreover have "escClosed rest'" unfolding rest'_def using cl by (rule escClosed_drop)
      ultimately have IH: "scanLoop rest' (n - int (j + 2)) =
          Some (n - int (j + 2) - int (length rest') + int (length (stripANSI rest')))"
        by (rule less.hyps)
      have "scanLoop scan n = scanLoop rest' (n - int (j + 2))"
        by (subst scanLoop.simps) (simp only: long1 if_True Some option.case d1 j d2)
      also have "\<dots> = Some (n - int (length scan) + int (length (stripANSI scan)))"
        using a(2) IH by (simp add: strip len)
      finally show ?thesis .
    qed
  qed
qed

lemma scanLoop_unclosed:
  assumes "1 < length scan" and "IndexByte scan ESC = Some i"
    and "IndexByte (drop (i + 1) scan) (CHR ''m'') = None"
  shows "scanLoop scan n = None"
proof -
  have "s \<noteq> scan" if "scanLoop s k = Some y" for s k y
    apply (rule scanLoop.raw_induct [where P = "\<lambda>s k y. s \<noteq> scan", OF _ that])
    subgoal premises prems for f s' k' y'
    proof
      assume "s' = scan"
      with prems(2) assms have "f scan k' = Some y'" by simp
      with prems(1) show False by blast
    qed
    done
  then show ?thesis by (cases "scanLoop scan n") auto
qed

lemma wordLoop_visible:
  assumes "escClosed word" and "word \<noteq> []"
  shows "wordLoop width indent1 indent2 (word # ws) (out, lineLen, False) =
     (if lineLen + 1 + int (length (stripANSI word)) > width
      then wordLoop width indent1 indent2 ws
             (out @ [LF] @ indent2 @ word, int (length indent2) + int (length (stripANSI word)), False)
      else wordLoop width indent1 indent2 ws
             (out @ [SP] @ word, lineLen + 1 + int (length (stripANSI word)), False))"
  using assms scanLoop_closed [of word "int (length word)"] by simp

subsection \<open>The width used for a width below 1\<close>

text \<open>
  Claim C3, as stated: for a width of 0 or less, Wrap wraps to the ambient terminal width
  plus the given width, the ambient width being 80 when it cannot be obtained. The code
  subtracts one more: with no terminal and width 0 it wraps to 79, not 80; and with a
  terminal 4 columns wide and width 0 the four characters of \<open>ab c\<close> no longer fit on
  one line, as they do for the width 4.
\<close>

theorem Wrap_ambient_width_counterexample:
  "effectiveWidth \<lparr>tty_opens = False, tty_size = None, stdout_size = None\<rparr> 0 = 79
   \<and> GetTTYWidth \<lparr>tty_opens = False, tty_size = None, stdout_size = None\<rparr> + 0 = 80
   \<and> Wrap \<lparr>tty_opens = True, tty_size = Some 4, stdout_size = None\<rparr> ''ab c'' 0 [] []
       = Some (''ab'' @ [LF] @ ''c'')
   \<and> Wrap \<lparr>tty_opens = True, tty_size = Some 4, stdout_size = None\<rparr> ''ab c'' 4 [] []
       = Some ''ab c''"
  by (simp add: Wrap_def wrap_def effectiveWidth_def scanLoop.simps Trim_def GetTTYWidth_def
      int64_def)

text \<open>
  Claim C3, amended: for a width of 0 or less, Wrap wraps to the ambient terminal width
  minus one plus the given width (in 64-bit arithmetic; the plain sum when that is in
  range), so that width 0 gives the ambient width minus one; the ambient width is the
  width reported for \<open>/dev/tty\<close>, or for standard output when \<open>/dev/tty\<close> does not open,
  and 80 when the query fails.
\<close>

theorem Wrap_nonpositive_width:
  "width \<le> 0 \<Longrightarrow>
     effectiveWidth e width = int64 (GetTTYWidth e - 1 + width)
     \<and> (- (2 ^ 63) \<le> GetTTYWidth e - 1 + width \<and> GetTTYWidth e - 1 + width < 2 ^ 63
          \<longrightarrow> effectiveWidth e width = GetTTYWidth e - 1 + width)
     \<and> Wrap e text width indent1 indent2 =
         map_option (\<lambda>bs. Trim bs [LF])
           (wrap text (int64 (GetTTYWidth e - 1 + width)) indent1 indent2)
     \<and> ((if tty_opens e then tty_size e else stdout_size e) = None \<longrightarrow> GetTTYWidth e = 80)
     \<and> (\<forall>w. (if tty_opens e then tty_size e else stdout_size e) = Some w
            \<longrightarrow> GetTTYWidth e = w)"
proof -
  assume w: "width \<le> 0"
  then have a: "effectiveWidth e width = int64 (GetTTYWidth e - 1 + width)"
    by (simp add: effectiveWidth_def)
  have b: "- (2 ^ 63) \<le> GetTTYWidth e - 1 + width \<and> GetTTYWidth e - 1 + width < 2 ^ 63
      \<longrightarrow> effectiveWidth e width = GetTTYWidth e - 1 + width"
    using int64_id [of "GetTTYWidth e - 1 + width"] by (simp add: a)
  have c: "Wrap e text width indent1 indent2 =
      map_option (\<lambda>bs. Trim bs [LF])
        (wrap text (int64 (GetTTYWidth e - 1 + width)) indent1 indent2)"
    by (simp add: Wrap_def a split: option.splits)
  have d: "(if tty_opens e then tty_size e else stdout_size e) = None \<longrightarrow> GetTTYWidth e = 80"
    by (simp add: GetTTYWidth_def)
  have f: "\<forall>w. (if tty_opens e then tty_size e else stdout_size e) = Some w
      \<longrightarrow> GetTTYWidth e = w"
    by (simp add: GetTTYWidth_def)
  from a b c d f show ?thesis by blast
qed

theorem Wrap_nonpositive_width_witness:
  "(0::int) \<le> 0
   \<and> effectiveWidth \<lparr>tty_opens = False, tty_size = Some 120, stdout_size = None\<rparr> 0 = 79
   \<and> effectiveWidth \<lparr>tty_opens = True, tty_size = Some 120, stdout_size = None\<rparr> (- 20) = 99"
proof -
  have z: "(0::int) \<le> 0" and m: "(- 20 :: int) \<le> 0" by simp_all
  have "effectiveWidth \<lparr>tty_opens = False, tty_size = Some 120, stdout_size = None\<rparr> 0 = 79"
    using Wrap_nonpositive_width [OF z, of "\<lparr>tty_opens = False, tty_size = Some 120, stdout_size = None\<rparr>" "[]" "[]" "[]"]
    by (simp add: GetTTYWidth_def)
  moreover
  have "effectiveWidth \<lparr>tty_opens = True, tty_size = Some 120, stdout_size = None\<rparr> (- 20) = 99"
    using Wrap_nonpositive_width [OF m, of "\<lparr>tty_opens = True, tty_size = Some 120, stdout_size = None\<rparr>" "[]" "[]" "[]"]
    by (simp add: GetTTYWidth_def)
  ultimately show ?thesis by simp
qed

subsection \<open>Escape sequences and the length of a word\<close>

lemma scan_closed_word:
  "escClosed word \<Longrightarrow>
     scanLoop word (int (length word)) = Some (int (length (stripANSI word)))"
  using scanLoop_closed [of word "int (length word)"] by simp

lemma wrap_bold_example:
  "Wrap e (''Just a '' @ [ESC] @ ''[1mtest'' @ [ESC] @ ''[0m sentence.'') 10 [] []
     = Some (''Just a'' @ [LF] @ [ESC] @ ''[1mtest'' @ [ESC] @ ''[0m'' @ [LF] @ ''sentence.'')
   \<and> Wrap e ''Just a test sentence.'' 10 [] []
     = Some (''Just a'' @ [LF] @ ''test'' @ [LF] @ ''sentence.'')"
  by (simp add: Wrap_def wrap_def effectiveWidth_def scanLoop.simps Trim_def)

text \<open>
  Claim C7. Escape sequences count nothing in the word length that decides a line break,
  and the sentence with the bold \<open>test\<close> wraps like the plain one. For a word in which
  every ESC has an \<open>m\<close> behind it the scan does return the length without the escape
  sequences (\<open>scan_closed_word\<close>), and the example of the claim wraps as it says
  (\<open>wrap_bold_example\<close>). But the scan loses its step past an ESC that has no \<open>m\<close>
  behind it: the word \<open>ESC[1mtest ESC\<close>, which holds the escape sequence \<open>ESC[1m\<close> and
  one more ESC, has the visible length 5, and on it the scan never returns; nor does
  Wrap on the sentence with that word in place of \<open>test\<close>.
\<close>

theorem wrap_stray_escape_never_returns:
  "stripANSI ([ESC] @ ''[1mtest'' @ [ESC]) = ''test'' @ [ESC]
   \<and> scanLoop ([ESC] @ ''[1mtest'' @ [ESC]) (int (length ([ESC] @ ''[1mtest'' @ [ESC]))) = None
   \<and> Wrap \<lparr>tty_opens = False, tty_size = None, stdout_size = None\<rparr>
        (''Just a '' @ [ESC] @ ''[1mtest'' @ [ESC] @ '' sentence.'') 10 [] [] = None"
proof -
  have a: "stripANSI ([ESC] @ ''[1mtest'' @ [ESC]) = ''test'' @ [ESC]" by simp
  have tail: "scanLoop (''test'' @ [ESC]) 5 = None"
    by (rule scanLoop_unclosed [where i = 4]) simp_all
  have "scanLoop ([ESC] @ ''[1mtest'' @ [ESC]) 9 = scanLoop (''test'' @ [ESC]) 5"
    by (subst scanLoop.simps) simp
  with tail have bad: "scanLoop ([ESC] @ ''[1mtest'' @ [ESC]) 9 = None" by simp
  then have b: "scanLoop ([ESC] @ ''[1mtest'' @ [ESC])
      (int (length ([ESC] @ ''[1mtest'' @ [ESC]))) = None" by simp
  have j: "scanLoop ''Just'' 4 = Some 4" by (subst scanLoop.simps) simp
  have s: "scanLoop ''a'' 1 = Some 1" by (subst scanLoop.simps) simp
  have c: "Wrap \<lparr>tty_opens = False, tty_size = None, stdout_size = None\<rparr>
        (''Just a '' @ [ESC] @ ''[1mtest'' @ [ESC] @ '' sentence.'') 10 [] [] = None"
    by (simp add: Wrap_def wrap_def effectiveWidth_def j s bad [simplified])
  show ?thesis by (intro conjI) (fact a b c)+
qed

section \<open>Properties of Align\<close>

subsection \<open>The terminal plays no part\<close>

lemma effectiveWidth_pos: "0 < width \<Longrightarrow> effectiveWidth e width = width"
  by (simp add: effectiveWidth_def)

lemma Wrap_pos_env: "0 < width \<Longrightarrow> Wrap e1 text width i1 i2 = Wrap e2 text width i1 i2"
  by (simp add: Wrap_def effectiveWidth_pos)

lemma wrapCells_env: "wrapCells e1 ws col row = wrapCells e2 ws col row"
proof (induction row arbitrary: col)
  case Nil
  show ?case by simp
next
  case (Cons cell cells)
  show ?case
  proof (cases "col \<ge> length ws \<or> ws ! col \<le> 0")
    case True
    then show ?thesis using Cons.IH [of "Suc col"] by simp
  next
    case False
    then have "0 < ws ! col" by simp
    then have "Wrap e1 cell (ws ! col) [] [] = Wrap e2 cell (ws ! col) [] []"
      by (rule Wrap_pos_env)
    then show ?thesis using False Cons.IH [of "Suc col"] by (simp split: option.splits)
  qed
qed

lemma rowLoop_env: "rowLoop e1 opts rows newData = rowLoop e2 opts rows newData"
proof (induction rows arbitrary: newData)
  case Nil
  show ?case by simp
next
  case (Cons r rows)
  show ?case
  proof (cases r)
    case None
    then show ?thesis using Cons.IH by simp
  next
    case (Some row)
    then show ?thesis
      using Cons.IH wrapCells_env [of e1 "Widths opts" 0 row e2]
      by (simp split: option.splits)
  qed
qed

lemma Align_env: "Align e1 data opts = Align e2 data opts"
  by (simp add: Align_def Let_def rowLoop_env [of e1 _ data "[]" e2])

subsection \<open>Splitting the cells of a row into physical rows\<close>

lemma maxCellsLoop_Max:
  "maxCellsLoop work m = Max (insert m (set (map length work)))"
proof (induction work arbitrary: m)
  case Nil
  show ?case by simp
next
  case (Cons cells work)
  have fin: "finite (set (map length work))" by simp
  let ?S = "set (map length work)"
  have ge: "length cells \<le> Max (insert (length cells) ?S)"
    using fin by (intro Max_ge) simp_all
  have ins: "Max (insert m (insert (length cells) ?S)) = max m (Max (insert (length cells) ?S))"
    using fin by (intro Max_insert) simp_all
  show ?case
  proof (cases "length cells > m")
    case True
    with ge have "m \<le> Max (insert (length cells) ?S)" by linarith
    with ins have "Max (insert m (insert (length cells) ?S)) = Max (insert (length cells) ?S)"
      by (simp only: max_absorb2)
    then show ?thesis using True Cons.IH [of "length cells"] by (simp add: insert_commute)
  next
    case False
    have "Max (insert (length cells) (insert m ?S)) = max (length cells) (Max (insert m ?S))"
      using fin by (intro Max_insert) simp_all
    moreover have "m \<le> Max (insert m ?S)" using fin by (intro Max_ge) simp_all
    with False have "length cells \<le> Max (insert m ?S)" by linarith
    ultimately have "Max (insert (length cells) (insert m ?S)) = Max (insert m ?S)"
      by (simp only: max_absorb2)
    then have "Max (insert m (insert (length cells) ?S)) = Max (insert m ?S)"
      by (simp only: insert_commute)
    then show ?thesis using False Cons.IH [of m] by simp
  qed
qed

lemma length_expandRow:
  "length (expandRow row) = Max (insert 0 (set (map length (splitCells row))))"
  by (simp add: expandRow_def Let_def maxCellsLoop_Max)

lemma expandRow_nth:
  assumes "k < length (expandRow row)" and "col < length row"
  shows "length (expandRow row ! k) = length row"
    and "expandRow row ! k ! col =
      (if k < length (splitCells row ! col) then splitCells row ! col ! k else [])"
proof -
  have k: "k < maxCellsLoop (splitCells row) 0"
    using assms(1) by (simp add: expandRow_def Let_def)
  have l: "length (splitCells row) = length row" by (simp add: splitCells_def)
  show "length (expandRow row ! k) = length row"
    using k by (simp add: expandRow_def Let_def physicalRow_def l)
  show "expandRow row ! k ! col =
      (if k < length (splitCells row ! col) then splitCells row ! col ! k else [])"
    using k assms(2) by (simp add: expandRow_def Let_def physicalRow_def l)
qed

subsection \<open>Separator markers between the rows\<close>

lemma rowLoop_between_acc:
  assumes "NilBetweenEveryRow opts"
  shows "acc \<noteq> [] \<Longrightarrow>
    rowLoop e opts rows acc =
      map_option (\<lambda>rs. acc @ concat (map (\<lambda>r. None # map Some r) (map expandRow rs)))
        (those (map (wrapCells e (Widths opts) 0) (dataRows rows)))"
proof (induction rows arbitrary: acc)
  case Nil
  show ?case by simp
next
  case (Cons r rows)
  show ?case
  proof (cases r)
    case None
    then show ?thesis using assms Cons by simp
  next
    case (Some row)
    show ?thesis
    proof (cases "wrapCells e (Widths opts) 0 row")
      case None
      then show ?thesis using Some by simp
    next
      case (Some row')
      have "acc @ [None] @ map Some (expandRow row') \<noteq> []" by simp
      from Cons.IH [OF this] show ?thesis
        using assms Cons.prems \<open>r = Some row\<close> Some
        by (simp add: option.map_comp comp_def)
    qed
  qed
qed

lemma rowLoop_between:
  assumes "NilBetweenEveryRow opts"
  shows "rowLoop e opts rows [] =
      map_option (\<lambda>rs. between (dropWhile (\<lambda>r. r = []) (map expandRow rs)))
        (those (map (wrapCells e (Widths opts) 0) (dataRows rows)))"
proof (induction rows)
  case Nil
  show ?case by simp
next
  case (Cons r rows)
  show ?case
  proof (cases r)
    case None
    then show ?thesis using assms Cons by simp
  next
    case (Some row)
    show ?thesis
    proof (cases "wrapCells e (Widths opts) 0 row")
      case None
      then show ?thesis using Some by simp
    next
      case (Some row')
      show ?thesis
      proof (cases "expandRow row' = []")
        case True
        then show ?thesis
          using assms Cons.IH \<open>r = Some row\<close> Some
          by (simp add: option.map_comp comp_def)
      next
        case False
        then have ne: "map Some (expandRow row') \<noteq> []" by simp
        show ?thesis
          using assms \<open>r = Some row\<close> Some False
            rowLoop_between_acc [OF assms ne, of e rows]
          by (simp add: option.map_comp comp_def)
      qed
    qed
  qed
qed

lemma wrapCells_no_widths: "wrapCells e [] col row = Some row"
  by (induction row arbitrary: col) auto

lemma those_map_Some: "those (map Some xs) = Some xs"
  by (induction xs) auto

subsection \<open>Claims about the preparation of the grid\<close>

text \<open>
  Claim C4. Align is a function of the grid and the options alone: two calls with the
  same grid and options give the same result whatever the terminal reports, because a
  cell is handed to Wrap only when its column has a configured width above 0, and for
  such a width Wrap does not ask for the terminal width.
\<close>

theorem Align_independent_of_terminal:
  "Align e1 data opts = Align e2 data opts
   \<and> wrapCells e1 ws col row = wrapCells e2 ws col row
   \<and> (length ws \<le> col \<or> ws ! col \<le> 0 \<longrightarrow>
        wrapCells e1 ws col (cell # cells)
          = map_option (\<lambda>newRow. cell # newRow) (wrapCells e1 ws (Suc col) cells))
   \<and> (0 < width \<longrightarrow>
        effectiveWidth e1 width = width
        \<and> Wrap e1 text width indent1 indent2 = Wrap e2 text width indent1 indent2)"
proof -
  have a: "Align e1 data opts = Align e2 data opts" by (rule Align_env)
  have b: "wrapCells e1 ws col row = wrapCells e2 ws col row" by (rule wrapCells_env)
  have c: "length ws \<le> col \<or> ws ! col \<le> 0 \<longrightarrow>
        wrapCells e1 ws col (cell # cells)
          = map_option (\<lambda>newRow. cell # newRow) (wrapCells e1 ws (Suc col) cells)"
    by (auto split: option.splits)
  have d: "0 < width \<longrightarrow>
        effectiveWidth e1 width = width
        \<and> Wrap e1 text width indent1 indent2 = Wrap e2 text width indent1 indent2"
    using effectiveWidth_pos [of width e1] Wrap_pos_env [of width e1 "text" indent1 indent2 e2]
    by blast
  from a b c d show ?thesis by blast
qed

theorem Align_independent_of_terminal_witness:
  "(0::int) < 4
   \<and> Wrap \<lparr>tty_opens = True, tty_size = Some 3, stdout_size = None\<rparr> ''aaa bbb'' 4 [] []
       = Wrap \<lparr>tty_opens = False, tty_size = None, stdout_size = None\<rparr> ''aaa bbb'' 4 [] []
   \<and> Align \<lparr>tty_opens = True, tty_size = Some 3, stdout_size = None\<rparr>
         [Some [''aaa bbb'', ''x'']] (Some (NewSimpleAlignOptions\<lparr>Widths := [4]\<rparr>))
       = Align \<lparr>tty_opens = False, tty_size = None, stdout_size = None\<rparr>
         [Some [''aaa bbb'', ''x'']] (Some (NewSimpleAlignOptions\<lparr>Widths := [4]\<rparr>))"
proof -
  have p: "(0::int) < 4" by simp
  from Align_independent_of_terminal
    [of "\<lparr>tty_opens = True, tty_size = Some 3, stdout_size = None\<rparr>"
        "[Some [''aaa bbb'', ''x'']]" "Some (NewSimpleAlignOptions\<lparr>Widths := [4]\<rparr>)"
        "\<lparr>tty_opens = False, tty_size = None, stdout_size = None\<rparr>"
        "[]" 0 "[]" "[]" "[]" 4 "''aaa bbb''" "[]" "[]"]
  show ?thesis using p by blast
qed

text \<open>
  Claim C5. Multi-line expansion replaces a row by as many physical rows as the largest
  number of lines any of its cells splits into (none for a row without cells); every
  physical row has one cell per column of the row, the k-th physical row holding the
  k-th line of a cell, or the empty string when the cell has fewer lines. The row
  \<open>["a\nb", "c"]\<close> becomes \<open>["a", "c"]\<close> and \<open>["b", ""]\<close>, also as the first row of a
  grid of two rows.
\<close>

theorem expandRow_physical_rows:
  "length (expandRow row) = Max (insert 0 (set (map length (splitCells row))))
   \<and> (\<forall>col < length row.
        splitCells row ! col = Split (Replace (row ! col) [CR, LF] [LF]) [LF])
   \<and> (\<forall>k < length (expandRow row).
        length (expandRow row ! k) = length row
        \<and> (\<forall>col < length row.
             expandRow row ! k ! col =
               (if k < length (splitCells row ! col) then splitCells row ! col ! k else [])))
   \<and> (\<not> NilBetweenEveryRow opts \<and> Widths opts = [] \<longrightarrow>
        rowLoop e opts (Some row # rows) newData
          = rowLoop e opts rows (newData @ map Some (expandRow row)))
   \<and> expandRow [''a'' @ [LF] @ ''b'', ''c''] = [[''a'', ''c''], [''b'', '''']]
   \<and> rowLoop e emptyOptions [Some [''a'' @ [LF] @ ''b'', ''c''], Some [''d'', ''e'']] []
        = Some [Some [''a'', ''c''], Some [''b'', ''''], Some [''d'', ''e'']]"
proof -
  have a: "length (expandRow row) = Max (insert 0 (set (map length (splitCells row))))"
    by (rule length_expandRow)
  have b: "\<forall>col < length row.
        splitCells row ! col = Split (Replace (row ! col) [CR, LF] [LF]) [LF]"
    by (simp add: splitCells_def)
  have c: "\<forall>k < length (expandRow row).
        length (expandRow row ! k) = length row
        \<and> (\<forall>col < length row.
             expandRow row ! k ! col =
               (if k < length (splitCells row ! col) then splitCells row ! col ! k else []))"
  proof (intro allI impI conjI)
    fix k assume k: "k < length (expandRow row)"
    show "length (expandRow row ! k) = length row"
    proof (cases row)
      case Nil
      with k show ?thesis by (simp add: expandRow_def splitCells_def Let_def)
    next
      case (Cons c cs)
      then have "0 < length row" by simp
      with k show ?thesis by (rule expandRow_nth(1))
    qed
  next
    fix k col assume "k < length (expandRow row)" and "col < length row"
    then show "expandRow row ! k ! col =
        (if k < length (splitCells row ! col) then splitCells row ! col ! k else [])"
      by (rule expandRow_nth(2))
  qed
  have d: "\<not> NilBetweenEveryRow opts \<and> Widths opts = [] \<longrightarrow>
        rowLoop e opts (Some row # rows) newData
          = rowLoop e opts rows (newData @ map Some (expandRow row))"
    by (simp add: wrapCells_no_widths)
  have f: "expandRow [''a'' @ [LF] @ ''b'', ''c''] = [[''a'', ''c''], [''b'', '''']]"
    by (simp add: expandRow_def splitCells_def physicalRow_def Let_def upt_rec)
  have g: "rowLoop e emptyOptions [Some [''a'' @ [LF] @ ''b'', ''c''], Some [''d'', ''e'']] []
        = Some [Some [''a'', ''c''], Some [''b'', ''''], Some [''d'', ''e'']]"
    by (simp add: emptyOptions_def expandRow_def splitCells_def physicalRow_def Let_def upt_rec)
  show ?thesis by (intro conjI) (fact a b c d f g)+
qed

theorem expandRow_physical_rows_witness:
  "(1::nat) < length (expandRow [''a'' @ [LF] @ ''b'', ''c''])
   \<and> (1::nat) < length [''a'' @ [LF] @ ''b'', ''c'']
   \<and> length (expandRow [''a'' @ [LF] @ ''b'', ''c'']) = 2
   \<and> expandRow [''a'' @ [LF] @ ''b'', ''c''] ! 1 ! 0 = ''b''
   \<and> expandRow [''a'' @ [LF] @ ''b'', ''c''] ! 1 ! 1 = ''''"
proof -
  have s: "splitCells [''a'' @ [LF] @ ''b'', ''c''] = [[''a'', ''b''], [''c'']]"
    by (simp add: splitCells_def)
  from expandRow_physical_rows [of "[''a'' @ [LF] @ ''b'', ''c'']" emptyOptions
      "\<lparr>tty_opens = False, tty_size = None, stdout_size = None\<rparr>" "[]" "[]"]
  have len: "length (expandRow [''a'' @ [LF] @ ''b'', ''c''])
        = Max (insert 0 (set (map length (splitCells [''a'' @ [LF] @ ''b'', ''c'']))))"
    and nth: "\<forall>k < length (expandRow [''a'' @ [LF] @ ''b'', ''c'']).
        length (expandRow [''a'' @ [LF] @ ''b'', ''c''] ! k) = length [''a'' @ [LF] @ ''b'', ''c'']
        \<and> (\<forall>col < length [''a'' @ [LF] @ ''b'', ''c''].
             expandRow [''a'' @ [LF] @ ''b'', ''c''] ! k ! col =
               (if k < length (splitCells [''a'' @ [LF] @ ''b'', ''c''] ! col)
                then splitCells [''a'' @ [LF] @ ''b'', ''c''] ! col ! k else []))"
    by blast+
  have l2: "length (expandRow [''a'' @ [LF] @ ''b'', ''c'']) = 2"
    unfolding len s by simp
  then have k: "(1::nat) < length (expandRow [''a'' @ [LF] @ ''b'', ''c''])" by simp
  have c0: "(0::nat) < length [''a'' @ [LF] @ ''b'', ''c'']"
    and c1: "(1::nat) < length [''a'' @ [LF] @ ''b'', ''c'']" by simp_all
  from nth k c0 have "expandRow [''a'' @ [LF] @ ''b'', ''c''] ! 1 ! 0 =
      (if 1 < length (splitCells [''a'' @ [LF] @ ''b'', ''c''] ! 0)
       then splitCells [''a'' @ [LF] @ ''b'', ''c''] ! 0 ! 1 else [])" by blast
  then have v0: "expandRow [''a'' @ [LF] @ ''b'', ''c''] ! 1 ! 0 = ''b''"
    unfolding s by simp
  from nth k c1 have "expandRow [''a'' @ [LF] @ ''b'', ''c''] ! 1 ! 1 =
      (if 1 < length (splitCells [''a'' @ [LF] @ ''b'', ''c''] ! 1)
       then splitCells [''a'' @ [LF] @ ''b'', ''c''] ! 1 ! 1 else [])" by blast
  then have v1: "expandRow [''a'' @ [LF] @ ''b'', ''c''] ! 1 ! 1 = ''''"
    unfolding s by simp
  from k c1 l2 v0 v1 show ?thesis by blast
qed

text \<open>
  Claim C6, as stated: with NilBetweenEveryRow set, a separator marker stands ahead of
  every data row after the first. A data row without cells expands to no physical row,
  and the marker is synthesized only when a physical row has been produced before: in
  the grid of an empty row and the row \<open>["a"]\<close> the second data row gets no marker, and
  no separator line is drawn.
\<close>

theorem NilBetweenEveryRow_counterexample:
  "rowLoop \<lparr>tty_opens = False, tty_size = None, stdout_size = None\<rparr>
     (NewSimpleAlignOptions\<lparr>NilBetweenEveryRow := True\<rparr>) [Some [], Some [''a'']] []
     = Some [Some [''a'']]
   \<and> between (map expandRow (dataRows [Some [], Some [''a'']])) = [None, Some [''a'']]
   \<and> Align \<lparr>tty_opens = False, tty_size = None, stdout_size = None\<rparr>
       [Some [], Some [''a'']] (Some (NewSimpleAlignOptions\<lparr>NilBetweenEveryRow := True\<rparr>))
     = Some (Inr (''+---+'' @ [LF] @ ''| a |'' @ [LF] @ ''+---+'' @ [LF]))"
  by (simp add: NewSimpleAlignOptions_def emptyOptions_def expandRow_def splitCells_def
      physicalRow_def Let_def upt_rec Align_def render_def extendWidths.simps padAlignments_def
      AllEqual_def border_def rowLine_def cellField_def)

text \<open>
  Claim C6, amended: with NilBetweenEveryRow set, the expanded grid holds the physical
  rows of the data rows in order, a synthesized separator marker ahead of every data row
  that comes after the first data row with at least one cell, and nothing else: the
  markers supplied by the caller are dropped, and data rows without cells ahead of the
  first row with a cell leave no trace. (Cells are wrapped first where a column width is
  configured; with no configured width the data rows are taken as they are.)
\<close>

theorem NilBetweenEveryRow_separators:
  "NilBetweenEveryRow opts \<Longrightarrow>
     rowLoop e opts data [] =
       map_option (\<lambda>rs. between (dropWhile (\<lambda>r. r = []) (map expandRow rs)))
         (those (map (wrapCells e (Widths opts) 0) (dataRows data)))
     \<and> (Widths opts = [] \<longrightarrow>
          rowLoop e opts data [] =
            Some (between (dropWhile (\<lambda>r. r = []) (map expandRow (dataRows data)))))"
proof -
  assume flag: "NilBetweenEveryRow opts"
  have a: "rowLoop e opts data [] =
       map_option (\<lambda>rs. between (dropWhile (\<lambda>r. r = []) (map expandRow rs)))
         (those (map (wrapCells e (Widths opts) 0) (dataRows data)))"
    using flag by (rule rowLoop_between)
  have "Widths opts = [] \<Longrightarrow>
      those (map (wrapCells e (Widths opts) 0) (dataRows data)) = Some (dataRows data)"
    using those_map_Some [of "dataRows data"]
    by (simp add: wrapCells_no_widths [abs_def])
  with a show ?thesis by simp
qed

theorem NilBetweenEveryRow_separators_witness:
  "NilBetweenEveryRow (emptyOptions\<lparr>NilBetweenEveryRow := True\<rparr>)
   \<and> rowLoop \<lparr>tty_opens = False, tty_size = None, stdout_size = None\<rparr>
       (emptyOptions\<lparr>NilBetweenEveryRow := True\<rparr>)
       [None, Some [''a''], None, None, Some [''b'' @ [LF] @ ''c''], Some [''d''], None] []
     = Some [Some [''a''], None, Some [''b''], Some [''c''], None, Some [''d'']]"
proof -
  have f: "NilBetweenEveryRow (emptyOptions\<lparr>NilBetweenEveryRow := True\<rparr>)" by simp
  have w: "Widths (emptyOptions\<lparr>NilBetweenEveryRow := True\<rparr>) = []"
    by (simp add: emptyOptions_def)
  have eq: "rowLoop \<lparr>tty_opens = False, tty_size = None, stdout_size = None\<rparr>
       (emptyOptions\<lparr>NilBetweenEveryRow := True\<rparr>)
       [None, Some [''a''], None, None, Some [''b'' @ [LF] @ ''c''], Some [''d''], None] []
     = Some (between (dropWhile (\<lambda>r. r = []) (map expandRow
         (dataRows [None, Some [''a''], None, None, Some [''b'' @ [LF] @ ''c''], Some [''d''], None]))))"
    using NilBetweenEveryRow_separators [OF f,
      of "\<lparr>tty_opens = False, tty_size = None, stdout_size = None\<rparr>"
         "[None, Some [''a''], None, None, Some [''b'' @ [LF] @ ''c''], Some [''d''], None]",
      THEN conjunct2, THEN mp, OF w] .
  show ?thesis
    unfolding eq
    by (simp add: expandRow_def splitCells_def physicalRow_def Let_def upt_rec)
qed

subsection \<open>Code points and padding\<close>

lemma runeSize_le: "runeSize s \<le> length s"
  by (cases s) (auto simp: Let_def split: list.splits)

lemma runeSize_pos: "s \<noteq> [] \<Longrightarrow> 0 < runeSize s"
  by (cases s) (auto simp: Let_def split: list.splits)

lemma ascii_not_cont: "(of_char a :: nat) < 0x80 \<Longrightarrow> \<not> contb a"
  by (simp add: contb_def)

lemma ascii_not_accept: "(of_char a :: nat) < 0x80 \<Longrightarrow> \<not> accept b a"
  by (simp add: accept_def)

lemma runeSize_snoc_ascii:
  assumes "(of_char a :: nat) < 0x80"
  shows "runeSize ((c # cs) @ [a]) = runeSize (c # cs)"
  using ascii_not_cont [OF assms] ascii_not_accept [OF assms]
  by (auto simp: Let_def split: list.splits)

lemma RuneCount_snoc_ascii:
  assumes "(of_char a :: nat) < 0x80"
  shows "RuneCountInString (s @ [a]) = Suc (RuneCountInString s)"
proof (induction s rule: RuneCountInString.induct)
  case 1
  show ?case using assms by (simp add: Let_def)
next
  case (2 c cs)
  have le: "runeSize (c # cs) \<le> length (c # cs)" by (rule runeSize_le)
  have "RuneCountInString ((c # cs) @ [a])
      = Suc (RuneCountInString (drop (runeSize ((c # cs) @ [a])) ((c # cs) @ [a])))"
    by (simp del: runeSize.simps)
  also have "\<dots> = Suc (RuneCountInString (drop (runeSize (c # cs)) (c # cs) @ [a]))"
    using le by (simp only: runeSize_snoc_ascii [OF assms] drop_append) simp
  also have "\<dots> = Suc (Suc (RuneCountInString (drop (runeSize (c # cs)) (c # cs))))"
    using 2 by simp
  finally show ?case by (simp del: runeSize.simps)
qed

lemma RuneCount_cons_ascii:
  "(of_char a :: nat) < 0x80 \<Longrightarrow> RuneCountInString (a # s) = Suc (RuneCountInString s)"
  by (simp add: Let_def)

lemma RuneCount_spaces_left:
  "RuneCountInString (replicate n SP @ v) = n + RuneCountInString v"
proof (induction n)
  case 0
  show ?case by simp
next
  case (Suc n)
  have "RuneCountInString (SP # (replicate n SP @ v)) = Suc (RuneCountInString (replicate n SP @ v))"
    by (rule RuneCount_cons_ascii) simp
  with Suc show ?case by simp
qed

lemma RuneCount_spaces_right:
  "RuneCountInString (v @ replicate n SP) = RuneCountInString v + n"
proof (induction n)
  case 0
  show ?case by simp
next
  case (Suc n)
  have "RuneCountInString ((v @ replicate n SP) @ [SP]) = Suc (RuneCountInString (v @ replicate n SP))"
    by (rule RuneCount_snoc_ascii) simp
  moreover have "v @ replicate (Suc n) SP = (v @ replicate n SP) @ [SP]"
    by (simp add: replicate_append_same)
  ultimately show ?case using Suc by simp
qed

lemma RuneCount_le_length: "RuneCountInString s \<le> length s"
proof (induction s rule: RuneCountInString.induct)
  case 1
  show ?case by simp
next
  case (2 c cs)
  have "0 < runeSize (c # cs)" by (rule runeSize_pos) simp
  then have "length (drop (runeSize (c # cs)) (c # cs)) < length (c # cs)" by simp
  with 2 show ?case by (simp del: runeSize.simps)
qed

subsection \<open>The widths of the columns\<close>

lemma extendWidths_eq:
  "extendWidths row ws = ws @ map length (drop (length ws) row)"
proof (induction row ws rule: extendWidths.induct)
  case (1 row ws)
  show ?case
  proof (cases "length row > length ws")
    case True
    then have d: "drop (length ws) row = row ! length ws # drop (Suc (length ws)) row"
      by (simp add: Cons_nth_drop_Suc)
    from 1 [OF True] show ?thesis
      using True by (subst extendWidths.simps) (simp add: d)
  next
    case False
    then show ?thesis by (subst extendWidths.simps) simp
  qed
qed

lemma length_maxLoop: "length (maxLoop c vs ws) = length ws"
  by (induction vs arbitrary: c ws) auto

lemma maxLoop_nth:
  "c + length vs \<le> length ws \<Longrightarrow> k < length ws \<Longrightarrow>
   maxLoop c vs ws ! k =
     (if c \<le> k \<and> k < c + length vs
      then max (ws ! k) (RuneCountInString (vs ! (k - c))) else ws ! k)"
proof (induction vs arbitrary: c ws)
  case Nil
  then show ?case by simp
next
  case (Cons v vs)
  define ws' where "ws' = (if RuneCountInString v > ws ! c then ws[c := RuneCountInString v] else ws)"
  have l: "length ws' = length ws" by (simp add: ws'_def)
  have c: "c < length ws" using Cons.prems(1) by simp
  have unfold: "maxLoop c (v # vs) ws = maxLoop (Suc c) vs ws'" by (simp add: ws'_def)
  have IH: "maxLoop (Suc c) vs ws' ! k =
      (if Suc c \<le> k \<and> k < Suc c + length vs
       then max (ws' ! k) (RuneCountInString (vs ! (k - Suc c))) else ws' ! k)"
    using Cons.prems by (intro Cons.IH) (simp_all add: l)
  show ?case
  proof (cases "k = c")
    case True
    have "ws' ! c = max (ws ! c) (RuneCountInString v)"
      using c by (simp add: ws'_def max_def)
    then show ?thesis unfolding unfold using IH True by simp
  next
    case False
    then have k: "ws' ! k = ws ! k" by (simp add: ws'_def)
    show ?thesis
    proof (cases "c < k")
      case True
      then have "(v # vs) ! (k - c) = vs ! (k - Suc c)" by (simp add: nth_Cons')
      then show ?thesis unfolding unfold using IH k True by (simp add: less_Suc_eq_le)
    next
      case False
      with \<open>k \<noteq> c\<close> have "k < c" by simp
      then show ?thesis unfolding unfold using IH k by simp
    qed
  qed
qed

lemma rowWidths_length:
  "length (maxLoop 0 row (extendWidths row ws)) = max (length ws) (length row)"
  by (simp add: length_maxLoop extendWidths_eq max_def)

lemma rowWidths_nth:
  assumes "k < max (length ws) (length row)"
  shows "maxLoop 0 row (extendWidths row ws) ! k =
     (if k < length row
      then max (if k < length ws then ws ! k else length (row ! k)) (RuneCountInString (row ! k))
      else ws ! k)"
proof -
  let ?e = "extendWidths row ws"
  have le: "length ?e = max (length ws) (length row)"
    by (simp add: extendWidths_eq max_def)
  have e: "?e ! k = (if k < length ws then ws ! k else length (row ! k))"
    using assms by (auto simp: extendWidths_eq nth_append)
  have "maxLoop 0 row ?e ! k =
      (if 0 \<le> k \<and> k < 0 + length row
       then max (?e ! k) (RuneCountInString (row ! (k - 0))) else ?e ! k)"
    using assms le by (intro maxLoop_nth) simp_all
  then show ?thesis using e assms by auto
qed

lemma column_Cons_Some:
  "column (Some row # rows) c = (if c < length row then row ! c # column rows c else column rows c)"
  by (simp add: column_def)

lemma column_Cons_None: "column (None # rows) c = column rows c"
  by (simp add: column_def)

lemma maxl_Cons: "maxl (x # xs) = max x (maxl xs)"
  by (simp add: maxl_def)

lemma maxl_Nil: "maxl [] = 0"
  by (simp add: maxl_def)

lemma maxl_Max: "xs \<noteq> [] \<Longrightarrow> maxl xs = Max (set xs)"
proof (induction xs)
  case Nil
  then show ?case by simp
next
  case (Cons x xs)
  show ?case
  proof (cases "xs = []")
    case True
    then show ?thesis by (simp add: maxl_def)
  next
    case False
    with Cons have "maxl xs = Max (set xs)" by simp
    then show ?thesis using False by (simp add: maxl_Cons)
  qed
qed

lemma maxl_ge: "x \<in> set xs \<Longrightarrow> x \<le> maxl xs"
  by (induction xs) (auto simp: maxl_Cons maxl_Nil)

lemma widthLoop_length:
  "length (widthLoop rows ws) = max (length ws) (maxl (map length (dataRows rows)))"
proof (induction rows arbitrary: ws)
  case Nil
  show ?case by (simp add: maxl_Nil)
next
  case (Cons r rows)
  show ?case
  proof (cases r)
    case None
    then show ?thesis using Cons by simp
  next
    case (Some row)
    then show ?thesis using Cons [of "maxLoop 0 row (extendWidths row ws)"]
      by (simp add: rowWidths_length maxl_Cons max.assoc)
  qed
qed

lemma widthLoop_nth:
  "c < length (widthLoop rows ws) \<Longrightarrow>
   widthLoop rows ws ! c =
     max (if c < length ws then ws ! c else length (hd (column rows c)))
         (maxl (map RuneCountInString (column rows c)))
   \<and> (length ws \<le> c \<longrightarrow> column rows c \<noteq> [])"
proof (induction rows arbitrary: ws)
  case Nil
  then show ?case by (simp add: column_def maxl_Nil)
next
  case (Cons r rows)
  show ?case
  proof (cases r)
    case None
    then show ?thesis using Cons by (simp add: column_Cons_None)
  next
    case (Some row)
    let ?ws = "maxLoop 0 row (extendWidths row ws)"
    have l: "length ?ws = max (length ws) (length row)" by (rule rowWidths_length)
    have c: "c < length (widthLoop rows ?ws)" using Cons.prems Some by simp
    note IH = Cons.IH [OF c]
    show ?thesis
    proof (cases "c < max (length ws) (length row)")
      case True
      have n: "?ws ! c =
         (if c < length row
          then max (if c < length ws then ws ! c else length (row ! c)) (RuneCountInString (row ! c))
          else ws ! c)"
        using True by (rule rowWidths_nth)
      show ?thesis
        using IH True Some n l
        by (auto simp: column_Cons_Some maxl_Cons max.assoc)
    next
      case False
      then show ?thesis
        using IH Some l by (auto simp: column_Cons_Some)
    qed
  qed
qed

subsection \<open>The line of a data row\<close>

lemma cellField_width:
  assumes "RuneCountInString v \<le> ws ! c"
    and "LeaveTrailingWhitespace opts \<or> c < n - 1 \<or> als ! c = Right"
  shows "RuneCountInString (cellField opts ws als n c v) = ws ! c"
proof (cases "als ! c")
  case Left
  with assms show ?thesis
    by (simp add: cellField_def RuneCount_spaces_right)
next
  case Right
  with assms show ?thesis
    by (simp add: cellField_def RuneCount_spaces_left)
next
  case Center
  let ?l = "(ws ! c - RuneCountInString v) div 2"
  let ?r = "ws ! c - (?l + RuneCountInString v)"
  have f: "cellField opts ws als n c v = replicate ?l SP @ (v @ replicate ?r SP)"
    using Center assms(2) by (simp add: cellField_def)
  have "?l + RuneCountInString v \<le> ws ! c" using assms(1) by simp
  then have "?l + (RuneCountInString v + ?r) = ws ! c" by simp
  then show ?thesis
    by (simp only: f RuneCount_spaces_left RuneCount_spaces_right)
qed

lemma cellField_unpadded:
  assumes "\<not> LeaveTrailingWhitespace opts" and "\<not> c < n - 1"
  shows "als ! c = Left \<Longrightarrow> cellField opts ws als n c v = v"
    and "als ! c = Center \<Longrightarrow> cellField opts ws als n c v
      = replicate ((ws ! c - RuneCountInString v) div 2) SP @ v"
  using assms by (simp_all add: cellField_def)

lemma cellLoop_concat:
  "cellLoop opts ws als n c vs =
     concat (map (\<lambda>i. (if c + i = 1 then RowSecondUD opts
                        else if c + i \<noteq> 0 then RowUD opts else [])
                       @ cellField opts ws als n (c + i) (vs ! i)) [0..<length vs])"
proof (induction vs arbitrary: c)
  case Nil
  show ?case by simp
next
  case (Cons v vs)
  show ?case
    using Cons.IH [of "Suc c"]
    by (simp add: map_upt_Suc del: upt_Suc cong: if_cong)
qed

lemma rowLine_concat:
  "rowLine opts ws als row =
     RowFirstUD opts
     @ concat (map (\<lambda>c. (if c = 1 then RowSecondUD opts
                         else if c \<noteq> 0 then RowUD opts else [])
                        @ cellField opts ws als (length row) c (row ! c)) [0..<length row])
     @ RowLastUD opts @ [LF]"
  by (simp add: rowLine_def cellLoop_concat cong: if_cong)

lemma cellField_cong:
  "ws' ! c = ws ! c \<Longrightarrow> als' ! c = als ! c \<Longrightarrow>
   cellField opts ws' als' n c v = cellField opts ws als n c v"
  by (simp add: cellField_def cong: Alignment.case_cong if_cong)

lemma rowLine_take:
  assumes "take (length row) ws' = take (length row) ws"
    and "take (length row) als' = take (length row) als"
  shows "rowLine opts ws' als' row = rowLine opts ws als row"
proof -
  have "cellField opts ws' als' (length row) c (row ! c)
      = cellField opts ws als (length row) c (row ! c)" if "c < length row" for c
  proof (rule cellField_cong)
    show "ws' ! c = ws ! c"
      using that nth_take [of c "length row" ws'] nth_take [of c "length row" ws] assms(1)
      by simp
    show "als' ! c = als ! c"
      using that nth_take [of c "length row" als'] nth_take [of c "length row" als] assms(2)
      by simp
  qed
  then have "map (\<lambda>c. (if c = 1 then RowSecondUD opts
                         else if c \<noteq> 0 then RowUD opts else [])
                        @ cellField opts ws' als' (length row) c (row ! c)) [0..<length row]
      = map (\<lambda>c. (if c = 1 then RowSecondUD opts
                         else if c \<noteq> 0 then RowUD opts else [])
                        @ cellField opts ws als (length row) c (row ! c)) [0..<length row]"
    by (intro map_cong) simp_all
  then show ?thesis
    by (simp only: rowLine_concat)
qed

lemma rowWidths_beyond:
  assumes "length row \<le> c" and "c < length ws"
  shows "maxLoop 0 row (extendWidths row ws) ! c = ws ! c"
  using rowWidths_nth [of c ws row] assms by simp

lemma length_padAlignments: "length ws \<le> length (padAlignments als ws)"
  by (simp add: padAlignments_def)

lemma row_within_widths:
  "row \<in> set (dataRows rows) \<Longrightarrow> length row \<le> length (widthLoop rows ws)"
  using maxl_ge [of "length row" "map length (dataRows rows)"]
  by (simp add: widthLoop_length)

subsection \<open>Claims about widths and rendered rows\<close>

lemma cell_in_column:
  "row \<in> set (dataRows data) \<Longrightarrow> c < length row \<Longrightarrow> row ! c \<in> set (column data c)"
  by (auto simp: column_def)

text \<open>
  Claim C1, as stated: the width of a column is the largest number of code points,
  escape sequences not counted, of the cells in the column of the expanded grid, and
  every rendered field of the column has that width. Align counts the code points of a
  cell as they are, escape sequences included: a first column holding
  \<open>ESC[1mX ESC[0m\<close> and \<open>ab\<close> gets the width 9, where the largest count without escape
  sequences is 2. And the last field of a line is not padded unless
  LeaveTrailingWhitespace is set: \<open>z\<close> in a second column of width 2 is rendered as it
  is.
\<close>

theorem column_width_counterexample:
  "widthLoop [Some [[ESC] @ ''[1mX'' @ [ESC] @ ''[0m'', ''yy''], Some [''ab'', ''z'']] [] = [9, 2]
   \<and> maxl (map (\<lambda>v. RuneCountInString (stripANSI v))
        (column [Some [[ESC] @ ''[1mX'' @ [ESC] @ ''[0m'', ''yy''], Some [''ab'', ''z'']] 0)) = 2
   \<and> Align \<lparr>tty_opens = False, tty_size = None, stdout_size = None\<rparr>
        [Some [[ESC] @ ''[1mX'' @ [ESC] @ ''[0m'', ''yy''], Some [''ab'', ''z'']] None
      = Some (Inr ([ESC] @ ''[1mX'' @ [ESC] @ ''[0m yy'' @ [LF] @ ''ab        z'' @ [LF]))
   \<and> cellField NewDefaultAlignOptions [9, 2] [Left, Left] 2 1 ''z'' = ''z''"
proof -
  have a: "widthLoop [Some [[ESC] @ ''[1mX'' @ [ESC] @ ''[0m'', ''yy''], Some [''ab'', ''z'']] []
      = [9, 2]"
    by (simp add: extendWidths.simps)
  have b: "maxl (map (\<lambda>v. RuneCountInString (stripANSI v))
        (column [Some [[ESC] @ ''[1mX'' @ [ESC] @ ''[0m'', ''yy''], Some [''ab'', ''z'']] 0)) = 2"
    by (simp add: column_def maxl_def)
  have c: "Align \<lparr>tty_opens = False, tty_size = None, stdout_size = None\<rparr>
        [Some [[ESC] @ ''[1mX'' @ [ESC] @ ''[0m'', ''yy''], Some [''ab'', ''z'']] None
      = Some (Inr ([ESC] @ ''[1mX'' @ [ESC] @ ''[0m yy'' @ [LF] @ ''ab        z'' @ [LF]))"
    by (simp add: NewDefaultAlignOptions_def emptyOptions_def expandRow_def splitCells_def
        physicalRow_def Let_def upt_rec Align_def render_def extendWidths.simps
        padAlignments_def AllEqual_def border_def rowLine_def cellField_def)
  have d: "cellField NewDefaultAlignOptions [9, 2] [Left, Left] 2 1 ''z'' = ''z''"
    by (simp add: NewDefaultAlignOptions_def emptyOptions_def cellField_def)
  show ?thesis by (intro conjI) (fact a b c d)+
qed

text \<open>
  Claim C1, amended: for every column \<open>c\<close> of the expanded grid, the width Align uses is
  at least the number of code points (escape sequences counted like any other
  characters) of every cell of the column, and it is the largest of these numbers when
  the first cell of the column has as many bytes as code points, as every cell of ASCII
  text has. A rendered field of the column has exactly that width when it is not the
  last field of its line, or LeaveTrailingWhitespace is set, or the column is aligned to
  the right; the last field of a line is otherwise the cell itself (aligned left) or the
  cell behind its left half of the padding (centred).
\<close>

theorem column_width_and_fields:
  "c < length (widthLoop data []) \<Longrightarrow>
     column data c \<noteq> []
     \<and> (\<forall>v \<in> set (column data c). RuneCountInString v \<le> widthLoop data [] ! c)
     \<and> (length (hd (column data c)) = RuneCountInString (hd (column data c)) \<longrightarrow>
          widthLoop data [] ! c = Max (set (map RuneCountInString (column data c))))
     \<and> (\<forall>row \<in> set (dataRows data). c < length row \<longrightarrow>
          (LeaveTrailingWhitespace opts \<or> c < length row - 1 \<or> alignments ! c = Right \<longrightarrow>
             RuneCountInString
               (cellField opts (widthLoop data []) alignments (length row) c (row ! c))
             = widthLoop data [] ! c)
          \<and> (\<not> LeaveTrailingWhitespace opts \<and> \<not> c < length row - 1
               \<and> alignments ! c = Left \<longrightarrow>
             cellField opts (widthLoop data []) alignments (length row) c (row ! c) = row ! c)
          \<and> (\<not> LeaveTrailingWhitespace opts \<and> \<not> c < length row - 1
               \<and> alignments ! c = Center \<longrightarrow>
             cellField opts (widthLoop data []) alignments (length row) c (row ! c)
             = replicate ((widthLoop data [] ! c - RuneCountInString (row ! c)) div 2) SP
               @ row ! c))"
proof -
  assume c: "c < length (widthLoop data [])"
  let ?col = "column data c"
  let ?w = "widthLoop data [] ! c"
  from widthLoop_nth [OF c]
  have w: "?w = max (length (hd ?col)) (maxl (map RuneCountInString ?col))"
    and ne: "?col \<noteq> []"
    by simp_all
  have ge: "RuneCountInString v \<le> ?w" if "v \<in> set ?col" for v
  proof -
    have "RuneCountInString v \<le> maxl (map RuneCountInString ?col)"
      using that by (intro maxl_ge) simp
    then show ?thesis by (simp add: w)
  qed
  have eq: "length (hd ?col) = RuneCountInString (hd ?col) \<longrightarrow>
      ?w = Max (set (map RuneCountInString ?col))"
  proof
    assume h: "length (hd ?col) = RuneCountInString (hd ?col)"
    have "hd ?col \<in> set ?col" using ne by simp
    then have "RuneCountInString (hd ?col) \<le> maxl (map RuneCountInString ?col)"
      by (intro maxl_ge) simp
    then have "?w = maxl (map RuneCountInString ?col)" by (simp add: w h)
    also have "\<dots> = Max (set (map RuneCountInString ?col))"
      using ne by (intro maxl_Max) simp
    finally show "?w = Max (set (map RuneCountInString ?col))" .
  qed
  have fields: "\<forall>row \<in> set (dataRows data). c < length row \<longrightarrow>
          (LeaveTrailingWhitespace opts \<or> c < length row - 1 \<or> alignments ! c = Right \<longrightarrow>
             RuneCountInString
               (cellField opts (widthLoop data []) alignments (length row) c (row ! c))
             = ?w)
          \<and> (\<not> LeaveTrailingWhitespace opts \<and> \<not> c < length row - 1
               \<and> alignments ! c = Left \<longrightarrow>
             cellField opts (widthLoop data []) alignments (length row) c (row ! c) = row ! c)
          \<and> (\<not> LeaveTrailingWhitespace opts \<and> \<not> c < length row - 1
               \<and> alignments ! c = Center \<longrightarrow>
             cellField opts (widthLoop data []) alignments (length row) c (row ! c)
             = replicate ((?w - RuneCountInString (row ! c)) div 2) SP @ row ! c)"
  proof (intro ballI impI conjI)
    fix row :: "string list"
    assume r: "row \<in> set (dataRows data)" and cr: "c < length row"
      and p: "LeaveTrailingWhitespace opts \<or> c < length row - 1 \<or> alignments ! c = Right"
    have "RuneCountInString (row ! c) \<le> ?w"
      using cell_in_column [OF r cr] by (rule ge)
    then show "RuneCountInString
        (cellField opts (widthLoop data []) alignments (length row) c (row ! c)) = ?w"
      using p by (rule cellField_width)
  next
    fix row :: "string list"
    assume "\<not> LeaveTrailingWhitespace opts \<and> \<not> c < length row - 1 \<and> alignments ! c = Left"
    then show "cellField opts (widthLoop data []) alignments (length row) c (row ! c) = row ! c"
      using cellField_unpadded(1) by blast
  next
    fix row :: "string list"
    assume "\<not> LeaveTrailingWhitespace opts \<and> \<not> c < length row - 1 \<and> alignments ! c = Center"
    then show "cellField opts (widthLoop data []) alignments (length row) c (row ! c)
        = replicate ((?w - RuneCountInString (row ! c)) div 2) SP @ row ! c"
      using cellField_unpadded(2) by blast
  qed
  have ge': "\<forall>v \<in> set ?col. RuneCountInString v \<le> ?w" using ge by blast
  show ?thesis by (intro conjI) (fact ne ge' eq fields)+
qed

theorem column_width_and_fields_witness:
  "(0::nat) < length (widthLoop [Some [''ab'', ''cd''], Some [''x'']] [])
   \<and> widthLoop [Some [''ab'', ''cd''], Some [''x'']] [] ! 0 = 2
   \<and> [''x''] \<in> set (dataRows [Some [''ab'', ''cd''], Some [''x'']])
   \<and> RuneCountInString
        (cellField NewSimpleAlignOptions (widthLoop [Some [''ab'', ''cd''], Some [''x'']] [])
           [Left, Left] (length [''x'']) 0 ([''x''] ! 0)) = 2"
proof -
  have w: "widthLoop [Some [''ab'', ''cd''], Some [''x'']] [] = [2, 2]"
    by (simp add: extendWidths.simps)
  have c: "(0::nat) < length (widthLoop [Some [''ab'', ''cd''], Some [''x'']] [])"
    unfolding w by simp
  have r: "[''x''] \<in> set (dataRows [Some [''ab'', ''cd''], Some [''x'']])" by simp
  have l: "LeaveTrailingWhitespace NewSimpleAlignOptions"
    by (simp add: NewSimpleAlignOptions_def emptyOptions_def)
  note T = column_width_and_fields [OF c, of NewSimpleAlignOptions "[Left, Left]"]
  have h: "length (hd (column [Some [''ab'', ''cd''], Some [''x'']] 0))
      = RuneCountInString (hd (column [Some [''ab'', ''cd''], Some [''x'']] 0))"
    by (simp add: column_def)
  have "widthLoop [Some [''ab'', ''cd''], Some [''x'']] [] ! 0
      = Max (set (map RuneCountInString (column [Some [''ab'', ''cd''], Some [''x'']] 0)))"
    using T [THEN conjunct2, THEN conjunct2, THEN conjunct1] h by (rule mp)
  then have v: "widthLoop [Some [''ab'', ''cd''], Some [''x'']] [] ! 0 = 2"
    by (simp add: column_def)
  have "RuneCountInString
        (cellField NewSimpleAlignOptions (widthLoop [Some [''ab'', ''cd''], Some [''x'']] [])
           [Left, Left] (length [''x'']) 0 ([''x''] ! 0))
      = widthLoop [Some [''ab'', ''cd''], Some [''x'']] [] ! 0"
    using T [THEN conjunct2, THEN conjunct2, THEN conjunct2, rule_format, OF r, THEN conjunct1]
      l by simp
  then have f: "RuneCountInString
        (cellField NewSimpleAlignOptions (widthLoop [Some [''ab'', ''cd''], Some [''x'']] [])
           [Left, Left] (length [''x'']) 0 ([''x''] ! 0)) = 2"
    by (simp only: v)
  show ?thesis by (intro conjI) (fact c v r f)+
qed

text \<open>
  Claim C2, as stated: a data row with fewer cells than there are columns is rendered
  with a padded empty field and the usual connectors for each missing column. Align
  renders the cells the row has and closes the line: in the grid of \<open>["a"]\<close> and
  \<open>["b", "c"]\<close> the first line is \<open>| a |\<close>, not the line \<open>| a |   |\<close> of the row
  \<open>["a", ""]\<close>.
\<close>

theorem short_row_counterexample:
  "Align \<lparr>tty_opens = False, tty_size = None, stdout_size = None\<rparr>
     [Some [''a''], Some [''b'', ''c'']] (Some NewSimpleAlignOptions)
   = Some (Inr (''+---+---+'' @ [LF] @ ''| a |'' @ [LF] @ ''| b | c |'' @ [LF]
                @ ''+---+---+'' @ [LF]))
   \<and> rowLine NewSimpleAlignOptions [1, 1] [Left, Left] [''a''] = ''| a |'' @ [LF]
   \<and> rowLine NewSimpleAlignOptions [1, 1] [Left, Left] [''a'', ''''] = ''| a |   |'' @ [LF]"
  by (simp add: NewSimpleAlignOptions_def emptyOptions_def expandRow_def splitCells_def
      physicalRow_def Let_def upt_rec Align_def render_def extendWidths.simps
      padAlignments_def AllEqual_def border_def rowLine_def cellField_def)

text \<open>
  Claim C2, amended: a data row with fewer cells than there are columns takes no part in
  the columns it lacks. In width measurement it leaves the widths of those columns as
  they are. Its rendered line is the leading connector, then for each cell the row has
  the connector of its column and its field, then the trailing connector and the line
  break: no field and no connector is written for a missing column, and the line is the
  same whatever the widths and alignments of the missing columns are.
\<close>

theorem short_row_line:
  "rowLine opts widths alignments row =
     RowFirstUD opts
     @ concat (map (\<lambda>c. (if c = 1 then RowSecondUD opts
                         else if c \<noteq> 0 then RowUD opts else [])
                        @ cellField opts widths alignments (length row) c (row ! c))
               [0..<length row])
     @ RowLastUD opts @ [LF]
   \<and> (take (length row) widths' = take (length row) widths
        \<and> take (length row) alignments' = take (length row) alignments \<longrightarrow>
        rowLine opts widths' alignments' row = rowLine opts widths alignments row)
   \<and> length (maxLoop 0 row (extendWidths row widths)) = max (length widths) (length row)
   \<and> (\<forall>c. length row \<le> c \<and> c < length widths \<longrightarrow>
        maxLoop 0 row (extendWidths row widths) ! c = widths ! c)"
proof -
  have a: "rowLine opts widths alignments row =
     RowFirstUD opts
     @ concat (map (\<lambda>c. (if c = 1 then RowSecondUD opts
                         else if c \<noteq> 0 then RowUD opts else [])
                        @ cellField opts widths alignments (length row) c (row ! c))
               [0..<length row])
     @ RowLastUD opts @ [LF]"
    by (rule rowLine_concat)
  have b: "take (length row) widths' = take (length row) widths
        \<and> take (length row) alignments' = take (length row) alignments \<longrightarrow>
        rowLine opts widths' alignments' row = rowLine opts widths alignments row"
    using rowLine_take [of row widths' widths alignments' alignments opts] by blast
  have c: "length (maxLoop 0 row (extendWidths row widths)) = max (length widths) (length row)"
    by (rule rowWidths_length)
  have d: "\<forall>c. length row \<le> c \<and> c < length widths \<longrightarrow>
        maxLoop 0 row (extendWidths row widths) ! c = widths ! c"
    using rowWidths_beyond [of row _ widths] by blast
  show ?thesis by (intro conjI) (fact a b c d)+
qed

theorem short_row_line_witness:
  "take (length [''a'']) [1, 7] = take (length [''a'']) [1, 1 :: nat]
   \<and> take (length [''a'']) [Left, Right] = take (length [''a'']) [Left, Left]
   \<and> rowLine NewSimpleAlignOptions [1, 7] [Left, Right] [''a''] = ''| a |'' @ [LF]
   \<and> length [''a''] \<le> 1 \<and> (1::nat) < length [3, 5 :: nat]
   \<and> maxLoop 0 [''a''] (extendWidths [''a''] [3, 5]) ! 1 = 5"
proof -
  have t1: "take (length [''a'']) [1, 7] = take (length [''a'']) [1, 1 :: nat]" by simp
  have t2: "take (length [''a'']) [Left, Right] = take (length [''a'']) [Left, Left]" by simp
  note T = short_row_line [of NewSimpleAlignOptions "[1, 1]" "[Left, Left]" "[''a'']"
      "[1, 7]" "[Left, Right]"]
  have "rowLine NewSimpleAlignOptions [1, 7] [Left, Right] [''a'']
      = rowLine NewSimpleAlignOptions [1, 1] [Left, Left] [''a'']"
    using T [THEN conjunct2, THEN conjunct1] t1 t2 by blast
  also have "\<dots> = ''| a |'' @ [LF]"
    by (simp add: NewSimpleAlignOptions_def emptyOptions_def rowLine_def cellField_def)
  finally have l: "rowLine NewSimpleAlignOptions [1, 7] [Left, Right] [''a''] = ''| a |'' @ [LF]" .
  have r1: "length [''a''] \<le> 1" and r2: "(1::nat) < length [3, 5 :: nat]" by simp_all
  note U = short_row_line [of NewSimpleAlignOptions "[3, 5]" "[Left, Left]" "[''a'']"
      "[3, 5]" "[Left, Left]"]
  have m: "maxLoop 0 [''a''] (extendWidths [''a''] [3, 5]) ! 1 = 5"
    using U [THEN conjunct2, THEN conjunct2, THEN conjunct2, rule_format, of 1] r1 r2
    by simp
  show ?thesis by (intro conjI) (fact t1 t2 l r1 r2 m)+
qed

subsection \<open>Pieces of a text that survive splitting, replacing and trimming\<close>

lemma Split_nonempty: "Split s sep \<noteq> []"
  by (induction s sep rule: Split.induct) (auto split: list.splits)

lemma sublist_Cons_notin: "sublist u (a # s) \<Longrightarrow> a \<notin> set u \<Longrightarrow> sublist u s"
  by (cases u) (auto simp: sublist_Cons_right)

lemma sublist_append_disjoint: "sublist u (p @ s) \<Longrightarrow> set u \<inter> set p = {} \<Longrightarrow> sublist u s"
proof (induction p)
  case Nil
  then show ?case by simp
next
  case (Cons a p)
  from Cons.prems have "a \<notin> set u" by auto
  with Cons.prems(1) have "sublist u (p @ s)" by (simp add: sublist_Cons_notin)
  with Cons show ?case by auto
qed

lemma sublist_prepend: "sublist u s \<Longrightarrow> sublist u (p @ s)"
  by (auto simp: sublist_def) (metis append.assoc)

lemma not_prefix_disjoint:
  assumes "set (c # u) \<inter> set old = {}" and "old \<noteq> []"
  shows "\<not> prefix old (c # cs)"
proof
  assume "prefix old (c # cs)"
  with assms(2) have "hd old = c" by (cases old) auto
  with assms(2) have "c \<in> set old" by (cases old) auto
  with assms(1) show False by auto
qed

lemma prefix_Replace:
  "set u \<inter> set old = {} \<Longrightarrow> prefix u s \<Longrightarrow> prefix u (Replace s old new)"
proof (induction s arbitrary: u)
  case Nil
  then show ?case by simp
next
  case (Cons c cs)
  show ?case
  proof (cases u)
    case Nil
    then show ?thesis by simp
  next
    case (Cons d u')
    with Cons.prems(2) have d: "d = c" and p: "prefix u' cs" by simp_all
    have dis: "set (c # u') \<inter> set old = {}" using Cons.prems(1) Cons d by simp
    then have "old \<noteq> [] \<Longrightarrow> \<not> prefix old (c # cs)" by (rule not_prefix_disjoint)
    then have r: "Replace (c # cs) old new = c # Replace cs old new" by auto
    have "set u' \<inter> set old = {}" using dis by auto
    then have "prefix u' (Replace cs old new)" using p by (rule Cons.IH)
    then show ?thesis unfolding Cons d r by simp
  qed
qed

lemma sublist_Replace:
  "set u \<inter> set old = {} \<Longrightarrow> sublist u s \<Longrightarrow> sublist u (Replace s old new)"
proof (induction s old new rule: Replace.induct)
  case (1 old new)
  then show ?case by simp
next
  case (2 c cs old new)
  show ?case
  proof (cases "old \<noteq> [] \<and> prefix old (c # cs)")
    case True
    then have split: "c # cs = old @ drop (length old) (c # cs)"
      by (metis append_take_drop_id prefix_def append_eq_conv_conj)
    have "sublist u (old @ drop (length old) (c # cs))" using "2.prems"(2) split by simp
    then have "sublist u (drop (length old) (c # cs))"
      using "2.prems"(1) by (rule sublist_append_disjoint)
    then have "sublist u (Replace (drop (length old) (c # cs)) old new)"
      using True "2.prems"(1) "2.IH"(1) by blast
    then have "sublist u (new @ Replace (drop (length old) (c # cs)) old new)"
      by (rule sublist_prepend)
    then show ?thesis using True by simp
  next
    case False
    then have r: "Replace (c # cs) old new = c # Replace cs old new" by auto
    from "2.prems"(2) consider "prefix u (c # cs)" | "sublist u cs"
      by (auto simp: sublist_Cons_right)
    then show ?thesis
    proof cases
      case 1
      then have "prefix u (Replace (c # cs) old new)"
        using "2.prems"(1) by (intro prefix_Replace)
      then show ?thesis by (rule prefix_imp_sublist)
    next
      case 2
      then have "sublist u (Replace cs old new)"
        using False "2.prems"(1) "2.IH"(2) by blast
      then show ?thesis unfolding r by (simp add: sublist_Cons_right)
    qed
  qed
qed

lemma prefix_Split_hd:
  "sep \<noteq> [] \<Longrightarrow> set u \<inter> set sep = {} \<Longrightarrow> prefix u s \<Longrightarrow> prefix u (hd (Split s sep))"
proof (induction s arbitrary: u)
  case Nil
  then show ?case by simp
next
  case (Cons c cs)
  show ?case
  proof (cases u)
    case Nil
    then show ?thesis by simp
  next
    case (Cons d u')
    with Cons.prems(3) have d: "d = c" and p: "prefix u' cs" by simp_all
    have dis: "set (c # u') \<inter> set sep = {}" using Cons.prems(2) Cons d by simp
    then have np: "\<not> prefix sep (c # cs)" using Cons.prems(1) by (rule not_prefix_disjoint)
    obtain w ws where w: "Split cs sep = w # ws"
      using Split_nonempty [of cs sep] by (cases "Split cs sep") auto
    have "set u' \<inter> set sep = {}" using dis by auto
    with Cons.prems(1) have "prefix u' (hd (Split cs sep))" using p by (rule Cons.IH)
    then show ?thesis using np w by (simp add: Cons d)
  qed
qed

lemma sublist_Split:
  "sep \<noteq> [] \<Longrightarrow> set u \<inter> set sep = {} \<Longrightarrow> sublist u s \<Longrightarrow>
   \<exists>p \<in> set (Split s sep). sublist u p"
proof (induction s sep rule: Split.induct)
  case (1 sep)
  then show ?case by simp
next
  case (2 c cs sep)
  show ?case
  proof (cases "prefix sep (c # cs)")
    case True
    then have split: "c # cs = sep @ drop (length sep) (c # cs)"
      by (metis append_take_drop_id prefix_def append_eq_conv_conj)
    have "sublist u (sep @ drop (length sep) (c # cs))" using "2.prems"(3) split by simp
    then have "sublist u (drop (length sep) (c # cs))"
      using "2.prems"(2) by (rule sublist_append_disjoint)
    then have "\<exists>p \<in> set (Split (drop (length sep) (c # cs)) sep). sublist u p"
      using True "2.prems"(1,2) "2.IH"(1) by blast
    then show ?thesis using True "2.prems"(1) by simp
  next
    case False
    obtain w ws where w: "Split cs sep = w # ws"
      using Split_nonempty [of cs sep] by (cases "Split cs sep") auto
    have r: "Split (c # cs) sep = (c # w) # ws" using False w by simp
    from "2.prems"(3) consider "prefix u (c # cs)" | "sublist u cs"
      by (auto simp: sublist_Cons_right)
    then show ?thesis
    proof cases
      case 1
      then have "prefix u (hd (Split (c # cs) sep))"
        using "2.prems"(1,2) by (intro prefix_Split_hd)
      then have "sublist u (c # w)" by (simp add: r del: Split.simps)
      then show ?thesis by (simp add: r del: Split.simps)
    next
      case 2
      then have "\<exists>p \<in> set (Split cs sep). sublist u p"
        using False "2.prems"(1,2) "2.IH"(2) by blast
      then obtain p where p: "p \<in> set (w # ws)" "sublist u p" using w by auto
      show ?thesis
      proof (cases "p = w")
        case True
        with p(2) have "sublist u (c # w)" by (simp add: sublist_Cons_right)
        then show ?thesis by (simp add: r del: Split.simps)
      next
        case False
        with p have "p \<in> set ws" by simp
        with p(2) show ?thesis by (auto simp add: r simp del: Split.simps)
      qed
    qed
  qed
qed

lemma sublist_dropWhile_keep:
  "u \<noteq> [] \<Longrightarrow> \<forall>c \<in> set u. \<not> P c \<Longrightarrow> sublist u s \<Longrightarrow> sublist u (dropWhile P s)"
proof (induction s)
  case Nil
  then show ?case by simp
next
  case (Cons c cs)
  show ?case
  proof (cases "P c")
    case True
    with Cons.prems(2) have "c \<notin> set u" by auto
    with Cons.prems(3) have "sublist u cs" by (rule sublist_Cons_notin)
    with Cons True show ?thesis by simp
  next
    case False
    with Cons.prems(3) show ?thesis by simp
  qed
qed

lemma sublist_Trim:
  assumes "u \<noteq> []" and "set u \<inter> set cutset = {}" and "sublist u s"
  shows "sublist u (Trim s cutset)"
proof -
  let ?P = "\<lambda>c. c \<in> set cutset"
  have n: "\<forall>c \<in> set u. \<not> ?P c" using assms(2) by auto
  have "sublist u (dropWhile ?P s)" using assms(1) n assms(3) by (rule sublist_dropWhile_keep)
  then have "sublist (rev u) (rev (dropWhile ?P s))" by simp
  moreover have "rev u \<noteq> []" using assms(1) by simp
  moreover have "\<forall>c \<in> set (rev u). \<not> ?P c" using n by simp
  ultimately have "sublist (rev u) (dropWhile ?P (rev (dropWhile ?P s)))"
    by (intro sublist_dropWhile_keep)
  then have "sublist (rev (rev u)) (rev (dropWhile ?P (rev (dropWhile ?P s))))"
    by (simp only: sublist_rev)
  then show ?thesis by (simp add: Trim_def)
qed

subsection \<open>The loops over words and paragraphs\<close>

lemma length_stripANSI: "length (stripANSI s) \<le> length s"
proof (induction s rule: stripANSI.induct)
  case 1
  show ?case by simp
next
  case (2 c cs)
  show ?case
  proof (cases "c = ESC \<and> CHR ''m'' \<in> set cs")
    case True
    have "length (tl (dropWhile (\<lambda>x. x \<noteq> CHR ''m'') cs)) \<le> length cs"
      using length_dropWhile_le [of "\<lambda>x. x \<noteq> CHR ''m''" cs] by simp
    with 2(1) [OF True] True show ?thesis by simp
  next
    case False
    with 2(2) [OF False] show ?thesis by auto
  qed
qed

lemma wordLoop_step:
  assumes "escClosed word" and "word \<noteq> []"
  shows "wordLoop width indent1 indent2 (word # ws) (out, lineLen, start) =
     (if start then
        wordLoop width indent1 indent2 ws
          (out @ indent1 @ word,
           lineLen + int (length indent1) + int (length (stripANSI word)), False)
      else if lineLen + 1 + int (length (stripANSI word)) > width then
        wordLoop width indent1 indent2 ws
          (out @ [LF] @ indent2 @ word,
           int (length indent2) + int (length (stripANSI word)), start)
      else
        wordLoop width indent1 indent2 ws
          (out @ [SP] @ word, lineLen + 1 + int (length (stripANSI word)), start))"
  using assms scanLoop_closed [of word "int (length word)"] by simp

lemma wordLoop_skip:
  "wordLoop width indent1 indent2 ([] # ws) st = wordLoop width indent1 indent2 ws st"
  by (cases st) simp

lemma wordLoop_total:
  "\<forall>w \<in> set ws. escClosed w \<Longrightarrow>
   \<exists>r. wordLoop width indent1 indent2 ws (out, lineLen, start) = Some r"
proof (induction ws arbitrary: out lineLen start)
  case Nil
  show ?case by simp
next
  case (Cons word ws)
  have rest: "\<forall>w \<in> set ws. escClosed w" using Cons.prems by simp
  show ?case
  proof (cases "word = []")
    case True
    then show ?thesis using Cons.IH [OF rest] by (simp only: wordLoop_skip)
  next
    case False
    have cl: "escClosed word" using Cons.prems by simp
    show ?thesis
      unfolding wordLoop_step [OF cl False]
      using Cons.IH [OF rest] by (simp only: split: if_splits) blast
  qed
qed

lemma wordLoop_out:
  "wordLoop width indent1 indent2 ws (out, lineLen, start) = Some (out', lineLen', start') \<Longrightarrow>
   prefix out out' \<and> (\<forall>w \<in> set ws. w \<noteq> [] \<longrightarrow> sublist w out')"
proof (induction ws arbitrary: out lineLen start)
  case Nil
  then show ?case by simp
next
  case (Cons word ws)
  show ?case
  proof (cases "word = []")
    case True
    with Cons.prems have "wordLoop width indent1 indent2 ws (out, lineLen, start)
        = Some (out', lineLen', start')" by simp
    from Cons.IH [OF this] True show ?thesis by simp
  next
    case False
    from Cons.prems False obtain wordLen where
      wl: "scanLoop word (int (length word)) = Some wordLen"
      by (cases "scanLoop word (int (length word))") auto
    from Cons.prems False wl obtain x l s where
      next_state: "wordLoop width indent1 indent2 ws (out @ x @ word, l, s)
        = Some (out', lineLen', start')"
      by (auto split: if_splits) (metis append.assoc append_Nil append_Cons)+
    from Cons.IH [OF next_state]
    have p: "prefix (out @ x @ word) out'"
      and rest: "\<forall>w \<in> set ws. w \<noteq> [] \<longrightarrow> sublist w out'" by simp_all
    have "prefix out out'" using p by (metis append_prefixD)
    moreover have "sublist word out'"
    proof -
      have "sublist word (out @ x @ word)" by (metis append.assoc sublist_append_leftI)
      moreover have "sublist (out @ x @ word) out'" using p by (rule prefix_imp_sublist)
      ultimately show ?thesis by (rule sublist_order.order.trans)
    qed
    ultimately show ?thesis using rest by simp
  qed
qed

lemma wordLoop_first:
  "wordLoop width indent1 indent2 ws (out, lineLen, True) = Some (out', lineLen', start') \<Longrightarrow>
   filter (\<lambda>w. w \<noteq> []) ws \<noteq> [] \<Longrightarrow>
   prefix (out @ indent1 @ hd (filter (\<lambda>w. w \<noteq> []) ws)) out'"
proof (induction ws)
  case Nil
  then show ?case by simp
next
  case (Cons word ws)
  show ?case
  proof (cases "word = []")
    case True
    with Cons show ?thesis by simp
  next
    case False
    from Cons.prems False obtain wordLen where
      wl: "scanLoop word (int (length word)) = Some wordLen"
      by (cases "scanLoop word (int (length word))") auto
    from Cons.prems(1) False wl have
      "wordLoop width indent1 indent2 ws
         (out @ indent1 @ word, lineLen + int (length indent1) + wordLen, False)
       = Some (out', lineLen', start')"
      by simp
    from wordLoop_out [OF this] show ?thesis using False by simp
  qed
qed

lemma parLoop_total:
  "\<forall>par \<in> set pars. \<forall>w \<in> set (wordsOf par). escClosed w \<Longrightarrow>
   \<exists>r. parLoop width indent1 indent2 pars out = Some r"
proof (induction pars arbitrary: out)
  case Nil
  show ?case by simp
next
  case (Cons par pars)
  have "\<forall>w \<in> set (Split (Replace par [LF] [SP]) [SP]). escClosed w"
  proof
    fix w assume w: "w \<in> set (Split (Replace par [LF] [SP]) [SP])"
    show "escClosed w"
    proof (cases "w = []")
      case True
      then show ?thesis by simp
    next
      case False
      with w have "w \<in> set (wordsOf par)" by (simp add: wordsOf_def)
      with Cons.prems show ?thesis by simp
    qed
  qed
  then obtain r where
    "wordLoop width indent1 indent2 (Split (Replace par [LF] [SP]) [SP]) (out, 0, True) = Some r"
    using wordLoop_total by blast
  moreover obtain o' l' s' where "r = (o', l', s')" by (cases r) auto
  moreover have "\<exists>r. parLoop width indent1 indent2 pars (o' @ [LF, LF]) = Some r"
    using Cons.prems by (intro Cons.IH) simp
  ultimately show ?case by simp
qed

lemma parLoop_out:
  "parLoop width indent1 indent2 pars out = Some out' \<Longrightarrow>
   prefix out out'
   \<and> (\<forall>par \<in> set pars. \<forall>w \<in> set (wordsOf par). sublist w out')
   \<and> (\<forall>par \<in> set pars. wordsOf par \<noteq> [] \<longrightarrow> sublist (indent1 @ hd (wordsOf par)) out')"
proof (induction pars arbitrary: out)
  case Nil
  then show ?case by simp
next
  case (Cons par pars)
  let ?ws = "Split (Replace par [LF] [SP]) [SP]"
  from Cons.prems obtain o' l' s' where
    wl: "wordLoop width indent1 indent2 ?ws (out, 0, True) = Some (o', l', s')"
    and pl: "parLoop width indent1 indent2 pars (o' @ [LF, LF]) = Some out'"
    by (auto split: option.splits)
  from Cons.IH [OF pl]
  have p: "prefix (o' @ [LF, LF]) out'"
    and rest: "\<forall>par \<in> set pars. \<forall>w \<in> set (wordsOf par). sublist w out'"
    and rest1: "\<forall>par \<in> set pars. wordsOf par \<noteq> [] \<longrightarrow> sublist (indent1 @ hd (wordsOf par)) out'"
    by simp_all
  have po: "prefix o' out'" using p by (metis append_prefixD)
  from wordLoop_out [OF wl]
  have p1: "prefix out o'" and ws: "\<forall>w \<in> set ?ws. w \<noteq> [] \<longrightarrow> sublist w o'" by simp_all
  have a: "prefix out out'" using p1 po by (rule prefix_order.trans)
  have so: "sublist o' out'" using po by (rule prefix_imp_sublist)
  have b: "\<forall>w \<in> set (wordsOf par). sublist w out'"
  proof
    fix w assume "w \<in> set (wordsOf par)"
    then have "sublist w o'" using ws by (simp add: wordsOf_def)
    then show "sublist w out'" using so by (rule sublist_order.order.trans)
  qed
  have c: "wordsOf par \<noteq> [] \<longrightarrow> sublist (indent1 @ hd (wordsOf par)) out'"
  proof
    assume ne: "wordsOf par \<noteq> []"
    then have "prefix (out @ indent1 @ hd (wordsOf par)) o'"
      using wordLoop_first [OF wl] by (simp add: wordsOf_def)
    then have "sublist (out @ indent1 @ hd (wordsOf par)) o'" by (rule prefix_imp_sublist)
    moreover have "sublist (indent1 @ hd (wordsOf par)) (out @ indent1 @ hd (wordsOf par))"
      by (rule sublist_append_leftI)
    ultimately have "sublist (indent1 @ hd (wordsOf par)) o'"
      using sublist_order.order.trans by blast
    then show "sublist (indent1 @ hd (wordsOf par)) out'"
      using so by (rule sublist_order.order.trans)
  qed
  show ?case using a b c rest rest1 by simp
qed

subsection \<open>Words of the text in the lines of the output\<close>

lemma Split_subset: "p \<in> set (Split s sep) \<Longrightarrow> set p \<subseteq> set s"
proof (induction s sep arbitrary: p rule: Split.induct)
  case (1 sep)
  then show ?case by simp
next
  case (2 c cs sep)
  show ?case
  proof (cases "sep \<noteq> [] \<and> prefix sep (c # cs)")
    case True
    with "2.prems" have "p = [] \<or> p \<in> set (Split (drop (length sep) (c # cs)) sep)" by auto
    then show ?thesis
    proof
      assume "p = []" then show ?thesis by simp
    next
      assume "p \<in> set (Split (drop (length sep) (c # cs)) sep)"
      with True "2.IH"(1) have "set p \<subseteq> set (drop (length sep) (c # cs))" by blast
      then show ?thesis using set_drop_subset [of "length sep" "c # cs"] by blast
    qed
  next
    case False
    obtain w ws where w: "Split cs sep = w # ws"
      using Split_nonempty [of cs sep] by (cases "Split cs sep") auto
    have r: "Split (c # cs) sep = (c # w) # ws" using False w by auto
    from "2.prems" have "p = c # w \<or> p \<in> set ws" unfolding r by simp
    then show ?thesis
    proof
      assume p: "p = c # w"
      have "w \<in> set (Split cs sep)" using w by simp
      with False "2.IH"(2) have "set w \<subseteq> set cs" by blast
      then show ?thesis using p by auto
    next
      assume "p \<in> set ws"
      then have "p \<in> set (Split cs sep)" using w by simp
      with False "2.IH"(2) have "set p \<subseteq> set cs" by blast
      then show ?thesis by auto
    qed
  qed
qed

lemma Split_char_free: "p \<in> set (Split s [c]) \<Longrightarrow> c \<notin> set p"
proof (induction s arbitrary: p)
  case Nil
  then show ?case by simp
next
  case (Cons d ds)
  obtain w ws where w: "Split ds [c] = w # ws"
    using Split_nonempty [of ds "[c]"] by (cases "Split ds [c]") auto
  show ?case
  proof (cases "d = c")
    case True
    with Cons.prems have "p = [] \<or> p \<in> set (Split ds [c])" by auto
    with Cons.IH show ?thesis by auto
  next
    case False
    with Cons.prems w have "p = d # w \<or> p \<in> set ws" by auto
    then show ?thesis
    proof
      assume "p = d # w"
      moreover have "c \<notin> set w" using Cons.IH [of w] w by simp
      ultimately show ?thesis using False by auto
    next
      assume "p \<in> set ws"
      then show ?thesis using Cons.IH [of p] w by simp
    qed
  qed
qed

lemma Replace_char: "Replace s [a] [b] = map (\<lambda>x. if x = a then b else x) s"
  by (induction s) auto

lemma wordsOf_chars:
  assumes "w \<in> set (wordsOf par)"
  shows "w \<noteq> []" and "SP \<notin> set w" and "LF \<notin> set w"
proof -
  from assms have w: "w \<in> set (Split (Replace par [LF] [SP]) [SP])" and ne: "w \<noteq> []"
    by (simp_all add: wordsOf_def)
  show "w \<noteq> []" by (rule ne)
  show "SP \<notin> set w" using w by (rule Split_char_free)
  have "set w \<subseteq> set (Replace par [LF] [SP])" using w by (rule Split_subset)
  moreover have "LF \<notin> set (Replace par [LF] [SP])" by (auto simp: Replace_char)
  ultimately show "LF \<notin> set w" by blast
qed

lemma piece_in_word:
  assumes "u \<noteq> []" and "sublist u text" and "SP \<notin> set u" and "LF \<notin> set u" and "CR \<notin> set u"
  shows "\<exists>par \<in> set (paragraphs text). \<exists>w \<in> set (wordsOf par). sublist u w"
proof -
  have "sublist u (Replace text [CR, LF] [LF])"
    using assms by (intro sublist_Replace) auto
  then obtain par where par: "par \<in> set (paragraphs text)" and up: "sublist u par"
    unfolding paragraphs_def using assms(4) sublist_Split [of "[LF, LF]" u] by auto
  have "sublist u (Replace par [LF] [SP])"
    using up assms(4) by (intro sublist_Replace) auto
  then obtain w where w: "w \<in> set (Split (Replace par [LF] [SP]) [SP])" and uw: "sublist u w"
    using assms(3) sublist_Split [of "[SP]" u] by auto
  have "w \<noteq> []" using uw assms(1) by auto
  then have "w \<in> set (wordsOf par)" using w by (simp add: wordsOf_def)
  then show ?thesis using par uw by blast
qed

lemma wrap_returns:
  assumes "escapesClosed text"
  shows "\<exists>raw. wrap text width indent1 indent2 = Some raw
     \<and> (\<forall>par \<in> set (paragraphs text). \<forall>w \<in> set (wordsOf par). sublist w raw)
     \<and> (\<forall>par \<in> set (paragraphs text). wordsOf par \<noteq> [] \<longrightarrow>
           sublist (indent1 @ hd (wordsOf par)) raw)"
proof (cases "text = []")
  case True
  have "wordsOf [] = []" by (simp add: wordsOf_def)
  then show ?thesis using True by (simp add: wrap_def paragraphs_def)
next
  case False
  have cl: "\<forall>par \<in> set (paragraphs text). \<forall>w \<in> set (wordsOf par). escClosed w"
    using assms by (simp add: escapesClosed_def list_all_iff)
  then obtain raw where raw: "parLoop width indent1 indent2 (paragraphs text) [] = Some raw"
    using parLoop_total by blast
  from parLoop_out [OF raw] False raw show ?thesis
    by (simp add: wrap_def paragraphs_def)
qed

lemma line_of_piece:
  assumes "u \<noteq> []" and "LF \<notin> set u" and "sublist u raw"
  shows "\<exists>l \<in> set (Split (Trim raw [LF]) [LF]). sublist u l"
proof -
  have "sublist u (Trim raw [LF])" using assms by (intro sublist_Trim) auto
  then show ?thesis using assms(2) sublist_Split [of "[LF]" u] by auto
qed

text \<open>
  Claim C9, as stated: Wrap never breaks inside a word, so a word that is too long for
  the width gives a line longer than the width; for the first word the prefix counts
  with its length. Wrap writes the prefix as it is, line breaks included: with the
  first-line prefix \<open>x\nx\nx\n\<close>, the text \<open>a\<close> and the width 3, prefix and word
  together have the length 7, and no line of the output is longer than one character.
\<close>

theorem Wrap_long_word_counterexample:
  "Wrap \<lparr>tty_opens = False, tty_size = None, stdout_size = None\<rparr> ''a'' 3
     (''x'' @ [LF] @ ''x'' @ [LF] @ ''x'' @ [LF]) []
     = Some (''x'' @ [LF] @ ''x'' @ [LF] @ ''x'' @ [LF] @ ''a'')
   \<and> Split (''x'' @ [LF] @ ''x'' @ [LF] @ ''x'' @ [LF] @ ''a'') [LF] = [''x'', ''x'', ''x'', ''a'']
   \<and> effectiveWidth \<lparr>tty_opens = False, tty_size = None, stdout_size = None\<rparr> 3
        < int (length (''x'' @ [LF] @ ''x'' @ [LF] @ ''x'' @ [LF])) + int (length (stripANSI ''a''))
   \<and> list_all (\<lambda>l. int (length l)
        \<le> effectiveWidth \<lparr>tty_opens = False, tty_size = None, stdout_size = None\<rparr> 3)
        [''x'', ''x'', ''x'', ''a'']"
  by (simp add: Wrap_def wrap_def effectiveWidth_def scanLoop.simps Trim_def)

text \<open>
  Claim C9, amended: for every text in whose words every ESC has an \<open>m\<close> behind it, Wrap
  returns, and it never breaks inside a word: every non-empty piece of the text without
  a space, a line feed or a carriage return stands in one piece within a single line of
  the output, so that the output has a line longer than the effective width when the
  visible length of such a piece exceeds that width. When the first-line prefix holds no
  line feed, the first word of every paragraph stands in one line with the prefix ahead
  of it, so that the output has a line longer than the effective width when the length
  of the prefix plus the visible length of that word exceeds it.
\<close>

theorem Wrap_never_breaks_a_word:
  "escapesClosed text \<Longrightarrow>
     \<exists>out. Wrap e text width indent1 indent2 = Some out
       \<and> (\<forall>u. u \<noteq> [] \<and> sublist u text \<and> SP \<notin> set u \<and> LF \<notin> set u \<and> CR \<notin> set u \<longrightarrow>
             (\<exists>l \<in> set (Split out [LF]). sublist u l)
             \<and> (effectiveWidth e width < int (length (stripANSI u)) \<longrightarrow>
                  (\<exists>l \<in> set (Split out [LF]). effectiveWidth e width < int (length l))))
       \<and> (LF \<notin> set indent1 \<longrightarrow>
            (\<forall>par \<in> set (paragraphs text). wordsOf par \<noteq> [] \<longrightarrow>
               (\<exists>l \<in> set (Split out [LF]). sublist (indent1 @ hd (wordsOf par)) l)
               \<and> (effectiveWidth e width
                     < int (length indent1) + int (length (stripANSI (hd (wordsOf par)))) \<longrightarrow>
                    (\<exists>l \<in> set (Split out [LF]). effectiveWidth e width < int (length l)))))"
proof -
  assume closed: "escapesClosed text"
  from wrap_returns [OF closed, of "effectiveWidth e width" indent1 indent2]
  obtain raw where raw: "wrap text (effectiveWidth e width) indent1 indent2 = Some raw"
    and words: "\<forall>par \<in> set (paragraphs text). \<forall>w \<in> set (wordsOf par). sublist w raw"
    and firsts: "\<forall>par \<in> set (paragraphs text). wordsOf par \<noteq> [] \<longrightarrow>
           sublist (indent1 @ hd (wordsOf par)) raw"
    by blast
  let ?out = "Trim raw [LF]"
  have out: "Wrap e text width indent1 indent2 = Some ?out"
    by (simp add: Wrap_def raw)
  have pieces: "\<forall>u. u \<noteq> [] \<and> sublist u text \<and> SP \<notin> set u \<and> LF \<notin> set u \<and> CR \<notin> set u \<longrightarrow>
             (\<exists>l \<in> set (Split ?out [LF]). sublist u l)
             \<and> (effectiveWidth e width < int (length (stripANSI u)) \<longrightarrow>
                  (\<exists>l \<in> set (Split ?out [LF]). effectiveWidth e width < int (length l)))"
  proof (intro allI impI)
    fix u :: string
    assume u: "u \<noteq> [] \<and> sublist u text \<and> SP \<notin> set u \<and> LF \<notin> set u \<and> CR \<notin> set u"
    then obtain par w where "par \<in> set (paragraphs text)" and "w \<in> set (wordsOf par)"
      and uw: "sublist u w"
      using piece_in_word [of u "text"] by blast
    then have "sublist w raw" using words by blast
    with uw have "sublist u raw" by (rule sublist_order.order.trans)
    then obtain l where l: "l \<in> set (Split ?out [LF])" and ul: "sublist u l"
      using u line_of_piece [of u raw] by blast
    have "length (stripANSI u) \<le> length l"
      using length_stripANSI [of u] sublist_length_le [OF ul] by simp
    then have "effectiveWidth e width < int (length (stripANSI u)) \<longrightarrow>
        effectiveWidth e width < int (length l)" by simp
    with l ul show "(\<exists>l \<in> set (Split ?out [LF]). sublist u l)
        \<and> (effectiveWidth e width < int (length (stripANSI u)) \<longrightarrow>
             (\<exists>l \<in> set (Split ?out [LF]). effectiveWidth e width < int (length l)))"
      by blast
  qed
  have prefixed: "LF \<notin> set indent1 \<longrightarrow>
            (\<forall>par \<in> set (paragraphs text). wordsOf par \<noteq> [] \<longrightarrow>
               (\<exists>l \<in> set (Split ?out [LF]). sublist (indent1 @ hd (wordsOf par)) l)
               \<and> (effectiveWidth e width
                     < int (length indent1) + int (length (stripANSI (hd (wordsOf par)))) \<longrightarrow>
                    (\<exists>l \<in> set (Split ?out [LF]). effectiveWidth e width < int (length l))))"
  proof (intro impI ballI)
    fix par
    assume i: "LF \<notin> set indent1" and par: "par \<in> set (paragraphs text)"
      and ne: "wordsOf par \<noteq> []"
    let ?w = "hd (wordsOf par)"
    have w: "?w \<in> set (wordsOf par)" using ne by simp
    have "?w \<noteq> []" and "LF \<notin> set ?w" using wordsOf_chars [OF w] by simp_all
    then have a: "indent1 @ ?w \<noteq> []" and b: "LF \<notin> set (indent1 @ ?w)" using i by simp_all
    have "sublist (indent1 @ ?w) raw" using firsts par ne by blast
    with a b obtain l where l: "l \<in> set (Split ?out [LF])" and il: "sublist (indent1 @ ?w) l"
      using line_of_piece [of "indent1 @ ?w" raw] by blast
    have "length indent1 + length (stripANSI ?w) \<le> length l"
      using length_stripANSI [of ?w] sublist_length_le [OF il] by simp
    then have "effectiveWidth e width < int (length indent1) + int (length (stripANSI ?w)) \<longrightarrow>
        effectiveWidth e width < int (length l)" by simp
    with l il show "(\<exists>l \<in> set (Split ?out [LF]). sublist (indent1 @ ?w) l)
        \<and> (effectiveWidth e width < int (length indent1) + int (length (stripANSI ?w)) \<longrightarrow>
             (\<exists>l \<in> set (Split ?out [LF]). effectiveWidth e width < int (length l)))"
      by blast
  qed
  from out pieces prefixed show ?thesis by blast
qed

theorem Wrap_never_breaks_a_word_witness:
  "escapesClosed ''ab cdefgh''
   \<and> (\<exists>out. Wrap \<lparr>tty_opens = False, tty_size = None, stdout_size = None\<rparr>
               ''ab cdefgh'' 4 ''> '' [] = Some out
        \<and> (\<exists>l \<in> set (Split out [LF]). sublist ''cdefgh'' l)
        \<and> (\<exists>l \<in> set (Split out [LF]). 4 < int (length l))
        \<and> (\<exists>l \<in> set (Split out [LF]). sublist (''> '' @ ''ab'') l))"
proof -
  let ?e = "\<lparr>tty_opens = False, tty_size = None, stdout_size = None\<rparr>"
  have cl: "escapesClosed ''ab cdefgh''"
    by (simp add: escapesClosed_def paragraphs_def wordsOf_def)
  have ew: "effectiveWidth ?e 4 = 4" by (simp add: effectiveWidth_def)
  have "sublist ''cdefgh'' (''ab '' @ ''cdefgh'' @ [])" by (rule sublist_appendI)
  then have u: "''cdefgh'' \<noteq> [] \<and> sublist ''cdefgh'' ''ab cdefgh'' \<and> SP \<notin> set ''cdefgh''
      \<and> LF \<notin> set ''cdefgh'' \<and> CR \<notin> set ''cdefgh''" by simp
  have long: "effectiveWidth ?e 4 < int (length (stripANSI ''cdefgh''))" by (simp add: ew)
  have nl: "LF \<notin> set ''> ''" by simp
  have par: "''ab cdefgh'' \<in> set (paragraphs ''ab cdefgh'')" by (simp add: paragraphs_def)
  have ws: "wordsOf ''ab cdefgh'' = [''ab'', ''cdefgh'']" by (simp add: wordsOf_def)
  from Wrap_never_breaks_a_word [OF cl, of ?e 4 "''> ''" "[]"]
  obtain out where o: "Wrap ?e ''ab cdefgh'' 4 ''> '' [] = Some out"
    and p: "\<forall>u. u \<noteq> [] \<and> sublist u ''ab cdefgh'' \<and> SP \<notin> set u \<and> LF \<notin> set u \<and> CR \<notin> set u \<longrightarrow>
             (\<exists>l \<in> set (Split out [LF]). sublist u l)
             \<and> (effectiveWidth ?e 4 < int (length (stripANSI u)) \<longrightarrow>
                  (\<exists>l \<in> set (Split out [LF]). effectiveWidth ?e 4 < int (length l)))"
    and q: "LF \<notin> set ''> '' \<longrightarrow>
            (\<forall>par \<in> set (paragraphs ''ab cdefgh''). wordsOf par \<noteq> [] \<longrightarrow>
               (\<exists>l \<in> set (Split out [LF]). sublist (''> '' @ hd (wordsOf par)) l)
               \<and> (effectiveWidth ?e 4
                     < int (length ''> '') + int (length (stripANSI (hd (wordsOf par)))) \<longrightarrow>
                    (\<exists>l \<in> set (Split out [LF]). effectiveWidth ?e 4 < int (length l))))"
    by blast
  from p u have a: "\<exists>l \<in> set (Split out [LF]). sublist ''cdefgh'' l" by blast
  from p u long have "\<exists>l \<in> set (Split out [LF]). effectiveWidth ?e 4 < int (length l)" by blast
  then have b: "\<exists>l \<in> set (Split out [LF]). 4 < int (length l)" by (simp only: ew)
  from q nl par have "wordsOf ''ab cdefgh'' \<noteq> [] \<longrightarrow>
      (\<exists>l \<in> set (Split out [LF]). sublist (''> '' @ hd (wordsOf ''ab cdefgh'')) l)" by blast
  then have c: "\<exists>l \<in> set (Split out [LF]). sublist (''> '' @ ''ab'') l" by (simp add: ws)
  from cl o a b c show ?thesis by blast
qed

subsection \<open>Greedy fill\<close>















end
